theory Spec2Isabelle
  imports Complex_Main "HOL-Library.Multiset" "HOL-Library.AList"
begin

section \<open>Python values\<close>

text \<open>
  The evaluator (\<^verbatim>\<open>examples/sql_query_opt/evaluator.py\<close>) works on the document that
  \<^verbatim>\<open>json.loads\<close> returns for the output of \<^verbatim>\<open>EXPLAIN (FORMAT JSON)\<close>. A Python
  string is a list of code points (the filter text is cut at 140 code points and the
  ellipsis U+2026 is one of them), \<open>py\<close> embeds an ASCII literal. Python's \<^verbatim>\<open>int\<close> is
  unbounded and becomes \<open>int\<close>; a \<^verbatim>\<open>float\<close> becomes a \<open>real\<close>, so rounding, overflow and
  the non-finite floats are outside the model. A \<^verbatim>\<open>dict\<close> built by the parser has
  distinct keys and is an association list read with \<open>map_of\<close>.
\<close>

type_synonym pystr = "nat list"

definition py :: "string \<Rightarrow> pystr" where
  "py s = map of_char s"

datatype json =
    JNull
  | JBool bool
  | JInt int
  | JFloat real
  | JStr pystr
  | JList "json list"
  | JObj "(pystr \<times> json) list"

text \<open>
  The exceptions the code can raise. \<open>NotAMapping\<close> stands for the \<^verbatim>\<open>TypeError\<close> or
  \<^verbatim>\<open>AttributeError\<close> of a dict operation (\<^verbatim>\<open>in\<close>, \<^verbatim>\<open>.get\<close>) on a value that is no dict.
\<close>

datatype error = ValueError | TypeError | ZeroDivisionError | IndexError | NotAMapping

definition bnd :: "error + 'a \<Rightarrow> ('a \<Rightarrow> error + 'b) \<Rightarrow> error + 'b" where
  "bnd m f = (case m of Inl e \<Rightarrow> Inl e | Inr x \<Rightarrow> f x)"

text \<open>A \<^verbatim>\<open>for\<close> loop over a list whose body may raise: the first exception ends it.\<close>

fun iterate :: "('a \<Rightarrow> 's \<Rightarrow> error + 's) \<Rightarrow> 'a list \<Rightarrow> 's \<Rightarrow> error + 's" where
  "iterate f [] s = Inr s"
| "iterate f (x # xs) s = (case f x s of Inl e \<Rightarrow> Inl e | Inr s' \<Rightarrow> iterate f xs s')"

text \<open>Truth value of a Python object, as \<^verbatim>\<open>if x\<close> and \<^verbatim>\<open>x or y\<close> test it.\<close>

fun truthy :: "json \<Rightarrow> bool" where
  "truthy JNull = False"
| "truthy (JBool b) = b"
| "truthy (JInt i) = (i \<noteq> 0)"
| "truthy (JFloat f) = (f \<noteq> 0)"
| "truthy (JStr s) = (s \<noteq> [])"
| "truthy (JList l) = (l \<noteq> [])"
| "truthy (JObj kvs) = (kvs \<noteq> [])"

definition py_or :: "json \<Rightarrow> json \<Rightarrow> json" where
  "py_or x y = (if truthy x then x else y)"

text \<open>\<^verbatim>\<open>d.get(k)\<close> is \<open>JNull\<close> for a missing key, \<^verbatim>\<open>d.get(k, dflt)\<close> is \<open>dflt\<close>.\<close>

definition dict_get :: "(pystr \<times> json) list \<Rightarrow> pystr \<Rightarrow> json \<Rightarrow> json" where
  "dict_get kvs k dflt = (case map_of kvs k of None \<Rightarrow> dflt | Some v \<Rightarrow> v)"

subsection \<open>\<^verbatim>\<open>int()\<close> and \<^verbatim>\<open>float()\<close>\<close>

text \<open>
  Both strip white space from a string, take an optional sign and accept single
  underscores between digits. Only the ASCII digits are recognised here (Python also
  takes the other Unicode decimal digits), and \<^verbatim>\<open>float\<close> of \<^verbatim>\<open>"inf"\<close> or \<^verbatim>\<open>"nan"\<close> has
  no value among the reals.
\<close>

definition is_space :: "nat \<Rightarrow> bool" where
  "is_space c \<longleftrightarrow> (9 \<le> c \<and> c \<le> 13) \<or> (28 \<le> c \<and> c \<le> 32) \<or> c = 133 \<or> c = 160
     \<or> c = 5760 \<or> (8192 \<le> c \<and> c \<le> 8202) \<or> c = 8232 \<or> c = 8233 \<or> c = 8239
     \<or> c = 8287 \<or> c = 12288"

definition is_digit :: "nat \<Rightarrow> bool" where
  "is_digit c \<longleftrightarrow> 48 \<le> c \<and> c \<le> 57"

definition strip :: "pystr \<Rightarrow> pystr" where
  "strip s = rev (dropWhile is_space (rev (dropWhile is_space s)))"

text \<open>An underscore is legal only between two digits; the flag says the last character was a digit.\<close>

fun drop_underscores :: "bool \<Rightarrow> pystr \<Rightarrow> pystr option" where
  "drop_underscores p [] = Some []"
| "drop_underscores p (c # cs) =
     (if c = 95 then
        (if p \<and> (case cs of [] \<Rightarrow> False | d # _ \<Rightarrow> is_digit d) then drop_underscores False cs
         else None)
      else map_option ((#) c) (drop_underscores (is_digit c) cs))"

definition digits_val :: "pystr \<Rightarrow> nat" where
  "digits_val ds = foldl (\<lambda>a c. 10 * a + (c - 48)) 0 ds"

definition signed :: "pystr \<Rightarrow> bool \<times> pystr" where
  "signed s = (case s of [] \<Rightarrow> (False, [])
     | c # cs \<Rightarrow> if c = 45 then (True, cs) else if c = 43 then (False, cs) else (False, s))"

definition int_of_str :: "pystr \<Rightarrow> int option" where
  "int_of_str s =
     (case drop_underscores False (strip s) of
        None \<Rightarrow> None
      | Some t \<Rightarrow>
          (let (neg, ds) = signed t in
           if ds \<noteq> [] \<and> list_all is_digit ds
           then Some (if neg then - int (digits_val ds) else int (digits_val ds))
           else None))"

text \<open>
  A decimal float literal: digits, an optional point and fraction (one of the two digit
  runs may be empty), an optional exponent.
\<close>

definition exponent_of :: "pystr \<Rightarrow> int option" where
  "exponent_of r =
     (case r of
        [] \<Rightarrow> Some 0
      | c # cs \<Rightarrow>
          if c = 101 \<or> c = 69 then
            (let (neg, ds) = signed cs in
             if ds \<noteq> [] \<and> list_all is_digit ds
             then Some (if neg then - int (digits_val ds) else int (digits_val ds))
             else None)
          else None)"

definition float_of_str :: "pystr \<Rightarrow> real option" where
  "float_of_str s =
     (case drop_underscores False (strip s) of
        None \<Rightarrow> None
      | Some t \<Rightarrow>
          (let (neg, u) = signed t;
               ip = takeWhile is_digit u;
               r1 = dropWhile is_digit u;
               (fp, r2) = (case r1 of
                    [] \<Rightarrow> ([], [])
                  | c # cs \<Rightarrow> if c = 46 then (takeWhile is_digit cs, dropWhile is_digit cs)
                             else ([], r1))
           in if ip = [] \<and> fp = [] then None
              else (case exponent_of r2 of
                      None \<Rightarrow> None
                    | Some e \<Rightarrow>
                        (let m = real (digits_val (ip @ fp)) / 10 ^ length fp;
                             v = (if 0 \<le> e then m * 10 ^ nat e else m / 10 ^ nat (- e))
                         in Some (if neg then - v else v)))))"

text \<open>\<^verbatim>\<open>int(x)\<close> cuts a float towards zero.\<close>

definition trunc :: "real \<Rightarrow> int" where
  "trunc f = (if 0 \<le> f then \<lfloor>f\<rfloor> else \<lceil>f\<rceil>)"

fun py_int :: "json \<Rightarrow> error + int" where
  "py_int JNull = Inl TypeError"
| "py_int (JBool b) = Inr (if b then 1 else 0)"
| "py_int (JInt i) = Inr i"
| "py_int (JFloat f) = Inr (trunc f)"
| "py_int (JStr s) = (case int_of_str s of None \<Rightarrow> Inl ValueError | Some i \<Rightarrow> Inr i)"
| "py_int (JList l) = Inl TypeError"
| "py_int (JObj kvs) = Inl TypeError"

fun py_float :: "json \<Rightarrow> error + real" where
  "py_float JNull = Inl TypeError"
| "py_float (JBool b) = Inr (if b then 1 else 0)"
| "py_float (JInt i) = Inr (of_int i)"
| "py_float (JFloat f) = Inr f"
| "py_float (JStr s) = (case float_of_str s of None \<Rightarrow> Inl ValueError | Some f \<Rightarrow> Inr f)"
| "py_float (JList l) = Inl TypeError"
| "py_float (JObj kvs) = Inl TypeError"

text \<open>\<^verbatim>\<open>math.log1p\<close> raises a \<^verbatim>\<open>ValueError\<close> (math domain error) at and below \<open>-1\<close>.\<close>

definition log1p :: "real \<Rightarrow> error + real" where
  "log1p x = (if x \<le> - 1 then Inl ValueError else Inr (ln (1 + x)))"

section \<open>Plan Aggregator\<close>

text \<open>
  A value that is used as a dict key is hashed, which fails for a list or a dict, and
  keys are compared with \<^verbatim>\<open>==\<close>, under which \<^verbatim>\<open>True\<close>, \<^verbatim>\<open>1\<close> and \<^verbatim>\<open>1.0\<close> are one key.
\<close>

datatype hkey = KNone | KNum real | KStr pystr

fun to_hkey :: "json \<Rightarrow> error + hkey" where
  "to_hkey JNull = Inr KNone"
| "to_hkey (JBool b) = Inr (KNum (if b then 1 else 0))"
| "to_hkey (JInt i) = Inr (KNum (of_int i))"
| "to_hkey (JFloat f) = Inr (KNum f)"
| "to_hkey (JStr s) = Inr (KStr s)"
| "to_hkey (JList l) = Inl TypeError"
| "to_hkey (JObj kvs) = Inl TypeError"

text \<open>
  The accumulator \<^verbatim>\<open>acc\<close> is one dict from metric names to numbers, with the histogram
  of operator kinds under \<^verbatim>\<open>"scan_types"\<close>.
\<close>

datatype mval = MInt int | MFloat real | MHist "hkey \<Rightarrow> int option"

type_synonym metrics = "pystr \<Rightarrow> mval option"

definition acc_get :: "metrics \<Rightarrow> pystr \<Rightarrow> mval \<Rightarrow> mval" where
  "acc_get acc k dflt = (case acc k of None \<Rightarrow> dflt | Some v \<Rightarrow> v)"

fun py_add :: "mval \<Rightarrow> int \<Rightarrow> error + mval" where
  "py_add (MInt a) i = Inr (MInt (a + i))"
| "py_add (MFloat a) i = Inr (MFloat (a + of_int i))"
| "py_add (MHist h) i = Inl TypeError"

definition tracked :: "(pystr \<times> pystr) list" where
  "tracked =
     [(py ''Shared Read Blocks'', py ''shared_read_total''),
      (py ''Shared Hit Blocks'', py ''shared_hit_total''),
      (py ''Temp Read Blocks'', py ''temp_read_total''),
      (py ''Temp Written Blocks'', py ''temp_written_total''),
      (py ''Rows Removed by Filter'', py ''rows_removed_total'')]"

text \<open>
  The body of the loop over the five counters:
  \<^verbatim>\<open>if k_src in n: acc[k_dst] = acc.get(k_dst, 0) + int(n[k_src] or 0)\<close>.
\<close>

definition add_counter :: "(pystr \<times> json) list \<Rightarrow> pystr \<times> pystr \<Rightarrow> metrics \<Rightarrow> error + metrics" where
  "add_counter n kk acc =
     (case kk of (k_src, k_dst) \<Rightarrow>
        (case map_of n k_src of
           None \<Rightarrow> Inr acc
         | Some v \<Rightarrow>
             bnd (py_int (py_or v (JInt 0))) (\<lambda>i.
             bnd (py_add (acc_get acc k_dst (MInt 0)) i) (\<lambda>t.
             Inr (acc(k_dst \<mapsto> t))))))"

text \<open>
  \<^verbatim>\<open>nt = n.get("Node Type")\<close>; if it is true, \<^verbatim>\<open>st = acc.setdefault("scan_types", {})\<close>
  and \<^verbatim>\<open>st[nt] = st.get(nt, 0) + 1\<close>.
\<close>

definition count_node_type :: "(pystr \<times> json) list \<Rightarrow> metrics \<Rightarrow> error + metrics" where
  "count_node_type n acc =
     (let nt = dict_get n (py ''Node Type'') JNull in
      if truthy nt then
        bnd (case acc (py ''scan_types'') of
               None \<Rightarrow> Inr Map.empty
             | Some (MHist h) \<Rightarrow> Inr h
             | Some _ \<Rightarrow> Inl NotAMapping) (\<lambda>st.
        bnd (to_hkey nt) (\<lambda>k.
        Inr (acc(py ''scan_types'' \<mapsto> MHist (st(k \<mapsto> (case st k of None \<Rightarrow> 0 | Some c \<Rightarrow> c) + 1))))))
      else Inr acc)"

text \<open>
  What \<^verbatim>\<open>for ch in v\<close> runs through: the items of a list, the keys of a dict, the
  characters of a string; anything else is not iterable.
\<close>

fun py_iter :: "json \<Rightarrow> error + json list" where
  "py_iter (JList l) = Inr l"
| "py_iter (JObj kvs) = Inr (map (\<lambda>kv. JStr (fst kv)) kvs)"
| "py_iter (JStr s) = Inr (map (\<lambda>c. JStr [c]) s)"
| "py_iter JNull = Inl TypeError"
| "py_iter (JBool b) = Inl TypeError"
| "py_iter (JInt i) = Inl TypeError"
| "py_iter (JFloat f) = Inl TypeError"

text \<open>\<^verbatim>\<open>n.get("Plans", []) or []\<close>, as the loop over the children reads it.\<close>

definition plans :: "(pystr \<times> json) list \<Rightarrow> error + json list" where
  "plans n = py_iter (py_or (dict_get n (py ''Plans'') (JList [])) (JList []))"

fun jsize :: "json \<Rightarrow> nat" where
  "jsize (JList l) = Suc (sum_list (map jsize l))"
| "jsize (JObj kvs) = Suc (sum_list (map (\<lambda>kv. jsize (snd kv)) kvs))"
| "jsize JNull = 0"
| "jsize (JBool b) = 0"
| "jsize (JInt i) = 0"
| "jsize (JFloat f) = 0"
| "jsize (JStr s) = 0"

lemma bnd_cong [fundef_cong]:
  "m = m' \<Longrightarrow> (\<And>x. m' = Inr x \<Longrightarrow> f x = g x) \<Longrightarrow> bnd m f = bnd m' g"
  by (auto simp: bnd_def split: sum.splits)

lemma iterate_cong [fundef_cong]:
  "xs = ys \<Longrightarrow> s = t \<Longrightarrow> (\<And>x a. x \<in> set ys \<Longrightarrow> f x a = g x a) \<Longrightarrow> iterate f xs s = iterate g ys t"
proof (induction ys arbitrary: xs s t)
  case Nil
  then show ?case by simp
next
  case (Cons y ys)
  then show ?case by (auto split: sum.splits)
qed

lemma jsize_elem: "x \<in> set l \<Longrightarrow> jsize x \<le> sum_list (map jsize l)"
  by (induction l) auto

lemma jsize_map_of: "map_of kvs k = Some v \<Longrightarrow> jsize v \<le> sum_list (map (\<lambda>kv. jsize (snd kv)) kvs)"
  by (induction kvs) (auto split: if_splits)

lemma jsize_py_iter: "py_iter v = Inr chs \<Longrightarrow> ch \<in> set chs \<Longrightarrow> jsize ch < Suc (jsize v)"
  by (cases v) (auto simp: less_Suc_eq_le dest: jsize_elem)

lemma jsize_plans: "plans n = Inr chs \<Longrightarrow> ch \<in> set chs \<Longrightarrow> jsize ch < jsize (JObj n)"
proof -
  assume p: "plans n = Inr chs" and c: "ch \<in> set chs"
  show ?thesis
  proof (cases "map_of n (py ''Plans'')")
    case None
    with p c show ?thesis by (simp add: plans_def dict_get_def py_or_def)
  next
    case (Some v)
    show ?thesis
    proof (cases "truthy v")
      case True
      with p Some have "py_iter v = Inr chs" by (simp add: plans_def dict_get_def py_or_def)
      from jsize_py_iter [OF this c] jsize_map_of [OF Some] show ?thesis by simp
    next
      case False
      with p c Some show ?thesis by (simp add: plans_def dict_get_def py_or_def)
    qed
  qed
qed

text \<open>
  The walk \<^verbatim>\<open>_walk(n, acc)\<close>: \<open>visit\<close> is what it does at the node itself (the five
  counters, then the operator kind), the loop over the children follows.
\<close>

definition visit :: "(pystr \<times> json) list \<Rightarrow> metrics \<Rightarrow> error + metrics" where
  "visit n acc = bnd (iterate (add_counter n) tracked acc) (count_node_type n)"

function walk :: "json \<Rightarrow> metrics \<Rightarrow> error + metrics" where
  "walk (JObj n) acc =
     bnd (visit n acc) (\<lambda>a.
     bnd (plans n) (\<lambda>chs.
     iterate walk chs a))"
| "walk JNull acc = Inl NotAMapping"
| "walk (JBool b) acc = Inl NotAMapping"
| "walk (JInt i) acc = Inl NotAMapping"
| "walk (JFloat f) acc = Inl NotAMapping"
| "walk (JStr s) acc = Inl NotAMapping"
| "walk (JList l) acc = Inl NotAMapping"
  by pat_completeness auto
termination
  by (relation "measure (\<lambda>(n, acc). jsize n)") (auto dest: jsize_plans)

text \<open>
  The nodes of a plan tree in the order of the walk (parent first, then the children
  from left to right), and what a node holds for a counter: \<^verbatim>\<open>int(n[k] or 0)\<close>, and
  zero where the key is missing; \<open>counter\<close> is the number when the conversion returns
  one.
\<close>

function nodes :: "json \<Rightarrow> json list" where
  "nodes (JObj n) = JObj n # (case plans n of Inl e \<Rightarrow> [] | Inr chs \<Rightarrow> concat (map nodes chs))"
| "nodes JNull = [JNull]"
| "nodes (JBool b) = [JBool b]"
| "nodes (JInt i) = [JInt i]"
| "nodes (JFloat f) = [JFloat f]"
| "nodes (JStr s) = [JStr s]"
| "nodes (JList l) = [JList l]"
  by pat_completeness auto
termination
  by (relation "measure jsize") (auto dest: jsize_plans)

definition has_key :: "json \<Rightarrow> pystr \<Rightarrow> bool" where
  "has_key nd k = (case nd of JObj n \<Rightarrow> map_of n k \<noteq> None | _ \<Rightarrow> False)"

definition counter_of :: "pystr \<Rightarrow> json \<Rightarrow> error + int" where
  "counter_of k nd =
     (case nd of
        JObj n \<Rightarrow> (case map_of n k of None \<Rightarrow> Inr 0 | Some v \<Rightarrow> py_int (py_or v (JInt 0)))
      | _ \<Rightarrow> Inl NotAMapping)"

definition counter :: "pystr \<Rightarrow> json \<Rightarrow> int" where
  "counter k nd = (case counter_of k nd of Inl e \<Rightarrow> 0 | Inr i \<Rightarrow> i)"

text \<open>What the walk does at one node of any kind, to speak of visiting nodes in some order.\<close>

fun visit_node :: "json \<Rightarrow> metrics \<Rightarrow> error + metrics" where
  "visit_node (JObj n) acc = visit n acc"
| "visit_node v acc = Inl NotAMapping"

subsection \<open>The metrics of a plan\<close>

text \<open>
  \<^verbatim>\<open>evaluate_internal\<close> without its input and output: \<open>plan_json\<close> is the document that
  \<^verbatim>\<open>_psql_explain\<close> returned, \<open>env\<close> the value of \<^verbatim>\<open>EVAL_CS_WEIGHTS_NO_TIME\<close> if it is
  set. First \<^verbatim>\<open>doc = plan_json if isinstance(plan_json, dict) else plan_json[0]\<close> and
  \<^verbatim>\<open>plan = doc.get("Plan") or doc\<close>, which \<open>root_plan\<close> puts together.
\<close>

definition first_item :: "json \<Rightarrow> error + json" where
  "first_item v =
     (case v of
        JList l \<Rightarrow> (case l of [] \<Rightarrow> Inl IndexError | x # _ \<Rightarrow> Inr x)
      | JStr s \<Rightarrow> (case s of [] \<Rightarrow> Inl IndexError | c # _ \<Rightarrow> Inr (JStr [c]))
      | _ \<Rightarrow> Inl TypeError)"

definition plan_of :: "json \<Rightarrow> error + json" where
  "plan_of doc =
     (case doc of
        JObj kvs \<Rightarrow> Inr (py_or (dict_get kvs (py ''Plan'') JNull) doc)
      | _ \<Rightarrow> Inl NotAMapping)"

text \<open>\<^verbatim>\<open>plan.get(k, 0) or 0\<close> under \<^verbatim>\<open>int\<close>, and \<^verbatim>\<open>plan.get(k, 0.0) or 0.0\<close> under \<^verbatim>\<open>float\<close>.\<close>

definition get_int :: "json \<Rightarrow> pystr \<Rightarrow> error + int" where
  "get_int nd k =
     (case nd of
        JObj n \<Rightarrow> py_int (py_or (dict_get n k (JInt 0)) (JInt 0))
      | _ \<Rightarrow> Inl NotAMapping)"

definition get_float :: "json \<Rightarrow> pystr \<Rightarrow> error + real" where
  "get_float nd k =
     (case nd of
        JObj n \<Rightarrow> py_float (py_or (dict_get n k (JFloat 0)) (JFloat 0))
      | _ \<Rightarrow> Inl NotAMapping)"

fun float_of_mval :: "mval \<Rightarrow> error + real" where
  "float_of_mval (MInt i) = Inr (of_int i)"
| "float_of_mval (MFloat f) = Inr f"
| "float_of_mval (MHist h) = Inl TypeError"

text \<open>The sub-score \<^verbatim>\<open>1.0 / (1.0 + math.log1p(x))\<close>.\<close>

definition sub_score :: "real \<Rightarrow> error + real" where
  "sub_score x =
     bnd (log1p x) (\<lambda>l. if 1 + l = 0 then Inl ZeroDivisionError else Inr (1 / (1 + l)))"

text \<open>\<^verbatim>\<open>s.split(",")\<close>, and the two weights, which fall back to 0.85 and 0.15 on any exception.\<close>

fun split_comma :: "pystr \<Rightarrow> pystr list" where
  "split_comma [] = [[]]"
| "split_comma (c # cs) =
     (if c = 44 then [] # split_comma cs
      else (case split_comma cs of [] \<Rightarrow> [[c]] | p # ps \<Rightarrow> (c # p) # ps))"

definition cs_weights_no_time :: "pystr option \<Rightarrow> real \<times> real" where
  "cs_weights_no_time env =
     (case map float_of_str (split_comma (case env of None \<Rightarrow> py ''0.85,0.15'' | Some s \<Rightarrow> s)) of
        [Some a, Some b] \<Rightarrow> (a, b)
      | _ \<Rightarrow> (85 / 100, 15 / 100))"

definition root_plan :: "json \<Rightarrow> error + json" where
  "root_plan plan_json =
     bnd (case plan_json of JObj kvs \<Rightarrow> Inr plan_json | _ \<Rightarrow> first_item plan_json) plan_of"

definition evaluate_internal :: "pystr option \<Rightarrow> json \<Rightarrow> error + metrics" where
  "evaluate_internal env plan_json =
     bnd (root_plan plan_json) (\<lambda>plan.
     bnd (walk plan Map.empty) (\<lambda>acc.
     bnd (get_float plan (py ''Total Cost'')) (\<lambda>tc.
     bnd (get_int plan (py ''Plan Rows'')) (\<lambda>pr.
     bnd (get_int plan (py ''Actual Rows'')) (\<lambda>ar.
     let acc1 = acc(py ''total_cost_total'' \<mapsto> MFloat tc,
                    py ''plan_rows_root_sum'' \<mapsto> MInt pr,
                    py ''actual_rows_root_sum'' \<mapsto> MInt ar,
                    py ''timeouts'' \<mapsto> MInt 0) in
     bnd (float_of_mval (acc_get acc1 (py ''shared_read_total'') (MFloat 0))) (\<lambda>rd.
     bnd (float_of_mval (acc_get acc1 (py ''total_cost_total'') (MFloat 0))) (\<lambda>ct.
     bnd (sub_score rd) (\<lambda>sr.
     bnd (sub_score ct) (\<lambda>sc.
     let (w_read, w_cost) = cs_weights_no_time env in
     Inr (acc1(py ''combined_score'' \<mapsto> MFloat (w_read * sr + w_cost * sc))))))))))))"


section \<open>Bottleneck Ranker\<close>

text \<open>
  \<^verbatim>\<open>_summarize_bottlenecks_from_plan\<close> up to its list \<^verbatim>\<open>topk\<close>; the entries of \<^verbatim>\<open>results\<close>
  and the report are a formatting of \<^verbatim>\<open>topk\<close>, item by item and in its order. The dict
  \<^verbatim>\<open>local\<close> keeps the order in which its keys were first seen, so it is an association
  list that \<open>AList.update\<close> extends at the end.
\<close>

record group =
  shared_read :: int
  rows_removed :: int
  temp :: int
  cost :: real
  filters :: "(pystr \<times> int) list"
  count_n :: int

type_synonym gkey = "hkey \<times> hkey"

type_synonym groups = "(gkey \<times> group) list"

type_synonym item = "gkey \<times> group \<times> real"

definition new_group :: group where
  "new_group = \<lparr>shared_read = 0, rows_removed = 0, temp = 0, cost = 0, filters = [], count_n = 0\<rparr>"

text \<open>
  \<^verbatim>\<open>nt = node.get("Node Type") or "?"\<close>,
  \<^verbatim>\<open>rn = node.get("Relation Name") or node.get("Alias") or "?"\<close> and \<^verbatim>\<open>key = (nt, rn)\<close>.
\<close>

definition node_key :: "(pystr \<times> json) list \<Rightarrow> error + gkey" where
  "node_key n =
     (let nt = py_or (dict_get n (py ''Node Type'') JNull) (JStr (py ''?''));
          rn = py_or (py_or (dict_get n (py ''Relation Name'') JNull) (dict_get n (py ''Alias'') JNull))
                 (JStr (py ''?''))
      in bnd (to_hkey nt) (\<lambda>a. bnd (to_hkey rn) (\<lambda>b. Inr (a, b))))"

text \<open>
  The filter text: \<^verbatim>\<open>s = str(filt).replace("\n", " ")\<close> and
  \<^verbatim>\<open>s = s[:140] + ("\<dots>" if len(s) > 140 else "")\<close>, the marker being the one character
  U+2026. \<^verbatim>\<open>str\<close> of a string is the string; what it gives for another value (the
  \<^verbatim>\<open>repr\<close> of a number, a list or a dict) is the parameter \<open>str_other\<close>.
\<close>

definition py_str :: "(json \<Rightarrow> pystr) \<Rightarrow> json \<Rightarrow> pystr" where
  "py_str str_other v = (case v of JStr s \<Rightarrow> s | _ \<Rightarrow> str_other v)"

definition ellipsis :: nat where
  "ellipsis = 8230"

definition ellipsize :: "pystr \<Rightarrow> pystr" where
  "ellipsize s = take 140 s @ (if length s > 140 then [ellipsis] else [])"

definition filter_text :: "(json \<Rightarrow> pystr) \<Rightarrow> json \<Rightarrow> pystr" where
  "filter_text str_other filt = ellipsize (map (\<lambda>c. if c = 10 then 32 else c) (py_str str_other filt))"

text \<open>\<^verbatim>\<open>d[s] = d.get(s, 0) + 1\<close> on a histogram.\<close>

definition tally :: "pystr \<Rightarrow> (pystr \<times> int) list \<Rightarrow> (pystr \<times> int) list" where
  "tally s h = AList.update s ((case map_of h s of None \<Rightarrow> 0 | Some c \<Rightarrow> c) + 1) h"

text \<open>
  \<^verbatim>\<open>acc.setdefault(key, {...})\<close> gives the group of the key, a fresh one if there is none.
  \<open>add_node\<close> is the body of \<^verbatim>\<open>walk_node\<close> before its loop over the children.
\<close>

definition group_of :: "groups \<Rightarrow> gkey \<Rightarrow> group" where
  "group_of acc key = (case map_of acc key of None \<Rightarrow> new_group | Some g \<Rightarrow> g)"

definition add_node :: "(json \<Rightarrow> pystr) \<Rightarrow> (pystr \<times> json) list \<Rightarrow> groups \<Rightarrow> error + groups" where
  "add_node str_other n acc =
     bnd (node_key n) (\<lambda>key.
     let d = group_of acc key in
     bnd (get_int (JObj n) (py ''Shared Read Blocks'')) (\<lambda>sr.
     bnd (get_int (JObj n) (py ''Rows Removed by Filter'')) (\<lambda>rr.
     bnd (get_int (JObj n) (py ''Temp Read Blocks'')) (\<lambda>tr.
     bnd (get_int (JObj n) (py ''Temp Written Blocks'')) (\<lambda>tw.
     bnd (get_float (JObj n) (py ''Total Cost'')) (\<lambda>tc.
     let filt = dict_get n (py ''Filter'') JNull in
     Inr (AList.update key
            \<lparr>shared_read = shared_read d + sr,
             rows_removed = rows_removed d + rr,
             temp = temp d + (tr + tw),
             cost = cost d + tc,
             filters = (if truthy filt then tally (filter_text str_other filt) (filters d)
                        else filters d),
             count_n = count_n d + 1\<rparr> acc)))))))"

function walk_node :: "(json \<Rightarrow> pystr) \<Rightarrow> json \<Rightarrow> groups \<Rightarrow> error + groups" where
  "walk_node str_other (JObj n) acc =
     bnd (add_node str_other n acc) (\<lambda>a.
     bnd (plans n) (\<lambda>chs.
     iterate (walk_node str_other) chs a))"
| "walk_node str_other JNull acc = Inl NotAMapping"
| "walk_node str_other (JBool b) acc = Inl NotAMapping"
| "walk_node str_other (JInt i) acc = Inl NotAMapping"
| "walk_node str_other (JFloat f) acc = Inl NotAMapping"
| "walk_node str_other (JStr s) acc = Inl NotAMapping"
| "walk_node str_other (JList l) acc = Inl NotAMapping"
  by pat_completeness auto
termination
  by (relation "measure (\<lambda>(so, n, acc). jsize n)") (auto dest: jsize_plans)

text \<open>
  The severity of a group, and the loop that builds \<^verbatim>\<open>ranked\<close> from \<^verbatim>\<open>local.items()\<close>.
\<close>

definition severity :: "group \<Rightarrow> error + real" where
  "severity m =
     (let sr = real_of_int (shared_read m); tm = real_of_int (temp m);
          rm = real_of_int (rows_removed m); ct = cost m / 1000
      in bnd (log1p sr) (\<lambda>a. bnd (log1p tm) (\<lambda>b. bnd (log1p rm) (\<lambda>c. bnd (log1p ct) (\<lambda>d.
         Inr (3 * a + 2 * b + (3 / 2) * c + 1 * d))))))"

fun rank_all :: "groups \<Rightarrow> error + item list" where
  "rank_all [] = Inr []"
| "rank_all ((key, m) # rest) =
     bnd (severity m) (\<lambda>sev. bnd (rank_all rest) (\<lambda>r. Inr ((key, m, sev) # r)))"

definition sev :: "item \<Rightarrow> real" where
  "sev x = snd (snd x)"

text \<open>\<^verbatim>\<open>ranked.sort(key=lambda x: x[2], reverse=True)\<close>: a stable sort, greatest first.\<close>

definition sort_desc :: "item list \<Rightarrow> item list" where
  "sort_desc ranked = sort_key (\<lambda>x. - sev x) ranked"

text \<open>
  The selection. \<^verbatim>\<open>total = sum(sev for _, _, sev in ranked) or 1.0\<close>; the loop appends an
  item, adds its severity and stops once \<^verbatim>\<open>cum / total >= max(0.0, min(1.0, pareto))\<close>.
\<close>

definition total_of :: "item list \<Rightarrow> real" where
  "total_of ranked = (let t = sum_list (map sev ranked) in if t = 0 then 1 else t)"

definition clamp01 :: "real \<Rightarrow> real" where
  "clamp01 p = max 0 (min 1 p)"

fun pareto_loop :: "real \<Rightarrow> real \<Rightarrow> item list \<Rightarrow> item list \<Rightarrow> real \<Rightarrow> item list" where
  "pareto_loop tot thr [] keep cum = keep"
| "pareto_loop tot thr (x # rest) keep cum =
     (if (cum + sev x) / tot \<ge> thr then keep @ [x]
      else pareto_loop tot thr rest (keep @ [x]) (cum + sev x))"

text \<open>
  Without a pareto fraction: \<^verbatim>\<open>top\<close>, or \<^verbatim>\<open>int(os.environ.get("EVAL_BOTTLENECKS_TOP", "5"))\<close>
  with 5 on an exception, and the slice \<^verbatim>\<open>ranked[:top]\<close>, which for a negative \<^verbatim>\<open>top\<close>
  leaves out that many items at the end.
\<close>

definition default_top :: "pystr option \<Rightarrow> int" where
  "default_top env =
     (case int_of_str (case env of None \<Rightarrow> py ''5'' | Some s \<Rightarrow> s) of None \<Rightarrow> 5 | Some i \<Rightarrow> i)"

definition py_prefix :: "int \<Rightarrow> 'a list \<Rightarrow> 'a list" where
  "py_prefix k xs = (if 0 \<le> k then take (nat k) xs else take (length xs - nat (- k)) xs)"

definition top_k :: "pystr option \<Rightarrow> int option \<Rightarrow> item list \<Rightarrow> item list" where
  "top_k env top_n ranked = py_prefix (case top_n of None \<Rightarrow> default_top env | Some k \<Rightarrow> k) ranked"

definition select :: "pystr option \<Rightarrow> real option \<Rightarrow> int option \<Rightarrow> item list \<Rightarrow> item list" where
  "select env pareto top_n ranked =
     (case pareto of
        None \<Rightarrow> top_k env top_n ranked
      | Some p \<Rightarrow>
          if p \<noteq> 0 \<and> ranked \<noteq> [] then pareto_loop (total_of ranked) (clamp01 p) ranked [] 0
          else top_k env top_n ranked)"

text \<open>
  The list \<^verbatim>\<open>ranked\<close> after the sort, from the parsed document (\<^verbatim>\<open>doc[0]\<close> if it is a
  list, then \<^verbatim>\<open>doc.get("Plan") or doc\<close>), and the list \<^verbatim>\<open>topk\<close>. \<open>env\<close> is the value of
  \<^verbatim>\<open>EVAL_BOTTLENECKS_TOP\<close> if it is set.
\<close>

definition ranker_plan :: "json \<Rightarrow> error + json" where
  "ranker_plan doc = bnd (case doc of JList l \<Rightarrow> first_item doc | _ \<Rightarrow> Inr doc) plan_of"

definition ranked_groups :: "(json \<Rightarrow> pystr) \<Rightarrow> json \<Rightarrow> error + item list" where
  "ranked_groups str_other doc =
     bnd (ranker_plan doc) (\<lambda>plan.
     bnd (walk_node str_other plan []) (\<lambda>local.
     bnd (rank_all local) (\<lambda>ranked.
     Inr (sort_desc ranked))))"

definition summarize_topk ::
  "(json \<Rightarrow> pystr) \<Rightarrow> pystr option \<Rightarrow> json \<Rightarrow> real option \<Rightarrow> int option \<Rightarrow> error + item list" where
  "summarize_topk str_other env doc pareto top_n =
     bnd (ranked_groups str_other doc) (\<lambda>ranked. Inr (select env pareto top_n ranked))"

section \<open>Notions of the claims\<close>

text \<open>
  The key of a node, the nodes of a plan that share a key, what a node holds in an
  integer and in a float field (\<^verbatim>\<open>int(node.get(k, 0) or 0)\<close> and
  \<^verbatim>\<open>float(node.get(k, 0.0) or 0.0)\<close>), the share of the severity that a selection
  holds (the code's \<^verbatim>\<open>cum / total\<close>), and the text that a node's \<^verbatim>\<open>Filter\<close> is tallied
  under.
\<close>

definition key_of :: "json \<Rightarrow> error + gkey" where
  "key_of nd = (case nd of JObj n \<Rightarrow> node_key n | _ \<Rightarrow> Inl NotAMapping)"

definition members :: "gkey \<Rightarrow> json \<Rightarrow> json list" where
  "members key plan = filter (\<lambda>nd. key_of nd = Inr key) (nodes plan)"

definition ival :: "pystr \<Rightarrow> json \<Rightarrow> int" where
  "ival k nd = (case get_int nd k of Inl e \<Rightarrow> 0 | Inr i \<Rightarrow> i)"

definition fval :: "pystr \<Rightarrow> json \<Rightarrow> real" where
  "fval k nd = (case get_float nd k of Inl e \<Rightarrow> 0 | Inr f \<Rightarrow> f)"


definition filter_of :: "json \<Rightarrow> json" where
  "filter_of nd = (case nd of JObj n \<Rightarrow> dict_get n (py ''Filter'') JNull | _ \<Rightarrow> JNull)"


definition int_fields :: "pystr list" where
  "int_fields =
     [py ''Shared Read Blocks'', py ''Rows Removed by Filter'', py ''Temp Read Blocks'',
      py ''Temp Written Blocks'']"






text \<open>
  For the proofs: what the Ranker does at one node of any kind; a node at which every
  conversion of both walks returns; an accumulator of the Aggregator whose entries have
  the types the walk gives them; and the texts in the filter histogram of a key.
\<close>

fun add_node_at :: "(json \<Rightarrow> pystr) \<Rightarrow> json \<Rightarrow> groups \<Rightarrow> error + groups" where
  "add_node_at so (JObj n) acc = add_node so n acc"
| "add_node_at so v acc = Inl NotAMapping"



definition tallied :: "groups \<Rightarrow> gkey \<Rightarrow> pystr set" where
  "tallied acc key = fst ` set (filters (group_of acc key))"

section \<open>Example plans\<close>

text \<open>
  The plans of the examples have no \<^verbatim>\<open>Filter\<close> that is not a string, so \<^verbatim>\<open>str\<close> is never
  applied to another value there and \<open>str_unused\<close> can stand for it.
\<close>

definition str_unused :: "json \<Rightarrow> pystr" where
  "str_unused v = []"

text \<open>
  A join over two sequential scans of \<^verbatim>\<open>orders\<close> that read 50 and 30 blocks at costs
  1000 and 2000, and a single scan that read 100 blocks at cost 5000.
\<close>

definition two_scans :: json where
  "two_scans =
     JObj [(py ''Node Type'', JStr (py ''Hash Join'')),
           (py ''Plans'', JList [
              JObj [(py ''Node Type'', JStr (py ''Seq Scan'')),
                    (py ''Relation Name'', JStr (py ''orders'')),
                    (py ''Shared Read Blocks'', JInt 50),
                    (py ''Total Cost'', JInt 1000)],
              JObj [(py ''Node Type'', JStr (py ''Seq Scan'')),
                    (py ''Relation Name'', JStr (py ''orders'')),
                    (py ''Shared Read Blocks'', JInt 30),
                    (py ''Total Cost'', JInt 2000)]])]"


text \<open>
  A join over a scan that carry no counter at all, with the two items of severity 0 that
  the Ranker makes of them, and a single node with the total cost \<open>-0.5\<close>.
\<close>

definition bare_plan :: json where
  "bare_plan =
     JObj [(py ''Node Type'', JStr (py ''Nested Loop'')),
           (py ''Plans'', JList [
              JObj [(py ''Node Type'', JStr (py ''Seq Scan'')),
                    (py ''Relation Name'', JStr (py ''orders''))]])]"

definition bare_items :: "item list" where
  "bare_items =
     [((KStr (py ''Nested Loop''), KStr (py ''?'')),
       \<lparr>shared_read = 0, rows_removed = 0, temp = 0, cost = 0, filters = [], count_n = 1\<rparr>, 0),
      ((KStr (py ''Seq Scan''), KStr (py ''orders'')),
       \<lparr>shared_read = 0, rows_removed = 0, temp = 0, cost = 0, filters = [], count_n = 1\<rparr>, 0)]"




definition long_filter :: json where
  "long_filter =
     JObj [(py ''Node Type'', JStr (py ''Seq Scan'')),
           (py ''Relation Name'', JStr (py ''orders'')),
           (py ''Filter'', JStr (replicate 150 120))]"

section \<open>Basic facts\<close>

lemma py_eq_iff [simp]: "py s = py t \<longleftrightarrow> s = t"
  unfolding py_def by (simp add: inj_map_eq_map inj_of_char)

lemma py_Nil_iff [simp]: "py s = [] \<longleftrightarrow> s = []"
  by (simp add: py_def)

lemma bnd_Inr_iff: "bnd m f = Inr y \<longleftrightarrow> (\<exists>x. m = Inr x \<and> f x = Inr y)"
  by (cases m) (simp_all add: bnd_def)

lemma iterate_append: "iterate f (xs @ ys) s = bnd (iterate f xs s) (iterate f ys)"
  by (induction xs arbitrary: s) (auto simp: bnd_def split: sum.splits)

lemmas eval_defs = visit_def tracked_def add_counter_def bnd_def py_or_def count_node_type_def
  plans_def dict_get_def acc_get_def Let_def

section \<open>The walk of the Aggregator visits every node once\<close>

lemma iterate_walk_nodes:
  assumes "\<And>ch a a'. ch \<in> set chs \<Longrightarrow> walk ch a = Inr a' \<Longrightarrow> iterate visit_node (nodes ch) a = Inr a'"
  shows "iterate walk chs a = Inr a' \<Longrightarrow> iterate visit_node (concat (map nodes chs)) a = Inr a'"
  using assms
proof (induction chs arbitrary: a)
  case Nil
  then show ?case by simp
next
  case (Cons c cs)
  from Cons.prems(1) obtain a1 where w: "walk c a = Inr a1" and r: "iterate walk cs a1 = Inr a'"
    by (auto split: sum.splits)
  have "iterate visit_node (nodes c) a = Inr a1" using Cons.prems(2) w by simp
  moreover have "iterate visit_node (concat (map nodes cs)) a1 = Inr a'"
    using Cons.IH [OF r] Cons.prems(2) by simp
  ultimately show ?case by (simp add: iterate_append bnd_def)
qed

lemma walk_nodes: "walk n acc = Inr acc' \<Longrightarrow> iterate visit_node (nodes n) acc = Inr acc'"
proof (induction n acc arbitrary: acc' rule: walk.induct)
  case (1 n acc)
  from "1.prems" obtain a chs where v: "visit n acc = Inr a" and p: "plans n = Inr chs"
    and r: "iterate walk chs a = Inr acc'"
    by (auto simp: bnd_Inr_iff)
  have "iterate visit_node (concat (map nodes chs)) a = Inr acc'"
    using r "1.IH" [OF v p] by (rule iterate_walk_nodes [rotated])
  with v p show ?case by simp
qed simp_all

subsection \<open>One counter at one node\<close>

lemma add_counter_other: "add_counter n kk acc = Inr acc' \<Longrightarrow> k \<noteq> snd kk \<Longrightarrow> acc' k = acc k"
  by (cases kk) (auto simp: add_counter_def bnd_Inr_iff split: option.splits)

lemma add_counter_absent: "map_of n (fst kk) = None \<Longrightarrow> add_counter n kk acc = Inr acc"
  by (cases kk) (simp add: add_counter_def)

lemma add_counter_total:
  "add_counter n (ks, kd) acc = Inr acc' \<Longrightarrow> acc_get acc kd (MInt 0) = MInt t \<Longrightarrow>
   acc_get acc' kd (MInt 0) = MInt (t + counter ks (JObj n))"
  by (auto simp: add_counter_def bnd_Inr_iff counter_def counter_of_def acc_get_def split: option.splits)

lemma iterate_add_counter_other:
  "iterate (add_counter n) prs acc = Inr acc' \<Longrightarrow> k \<notin> snd ` set prs \<Longrightarrow> acc' k = acc k"
proof (induction prs arbitrary: acc)
  case Nil
  then show ?case by simp
next
  case (Cons kk prs)
  from Cons.prems(1) obtain a where a: "add_counter n kk acc = Inr a"
    and r: "iterate (add_counter n) prs a = Inr acc'"
    by (auto split: sum.splits)
  from Cons.prems(2) have "k \<noteq> snd kk" "k \<notin> snd ` set prs" by auto
  with add_counter_other [OF a] Cons.IH [OF r] show ?case by simp
qed

lemma iterate_add_counter_total:
  "iterate (add_counter n) prs acc = Inr acc' \<Longrightarrow> distinct (map snd prs) \<Longrightarrow> (ks, kd) \<in> set prs \<Longrightarrow>
   acc_get acc kd (MInt 0) = MInt t \<Longrightarrow> acc_get acc' kd (MInt 0) = MInt (t + counter ks (JObj n))"
proof (induction prs arbitrary: acc)
  case Nil
  then show ?case by simp
next
  case (Cons kk prs)
  from Cons.prems(1) obtain a where a: "add_counter n kk acc = Inr a"
    and r: "iterate (add_counter n) prs a = Inr acc'"
    by (auto split: sum.splits)
  show ?case
  proof (cases "kk = (ks, kd)")
    case True
    with a Cons.prems(4) have "acc_get a kd (MInt 0) = MInt (t + counter ks (JObj n))"
      by (simp add: add_counter_total)
    moreover from True Cons.prems(2) have "kd \<notin> snd ` set prs" by auto
    from iterate_add_counter_other [OF r this] have "acc' kd = a kd" .
    ultimately show ?thesis by (simp add: acc_get_def)
  next
    case False
    with Cons.prems(3) have m: "(ks, kd) \<in> set prs" by simp
    from m have kin: "kd \<in> snd ` set prs" by force
    from Cons.prems(2) have "snd kk \<notin> snd ` set prs" by simp
    with kin have "kd \<noteq> snd kk" by blast
    from add_counter_other [OF a this] Cons.prems(4) have "acc_get a kd (MInt 0) = MInt t"
      by (simp add: acc_get_def)
    from Cons.IH [OF r _ m this] Cons.prems(2) show ?thesis by simp
  qed
qed

lemma count_node_type_other:
  "count_node_type n acc = Inr acc' \<Longrightarrow> k \<noteq> py ''scan_types'' \<Longrightarrow> acc' k = acc k"
  by (auto simp: count_node_type_def Let_def bnd_Inr_iff split: if_splits)

lemma tracked_distinct: "distinct (map snd tracked)"
  by (simp add: tracked_def)

lemma tracked_not_scan_types: "(ks, kd) \<in> set tracked \<Longrightarrow> kd \<noteq> py ''scan_types''"
  by (auto simp: tracked_def)

lemma visit_total:
  assumes "visit n acc = Inr acc'" "(ks, kd) \<in> set tracked" "acc_get acc kd (MInt 0) = MInt t"
  shows "acc_get acc' kd (MInt 0) = MInt (t + counter ks (JObj n))"
proof -
  from assms(1) obtain a where a: "iterate (add_counter n) tracked acc = Inr a"
    and c: "count_node_type n a = Inr acc'"
    by (auto simp: visit_def bnd_Inr_iff)
  from iterate_add_counter_total [OF a tracked_distinct assms(2,3)]
    count_node_type_other [OF c tracked_not_scan_types [OF assms(2)]]
  show ?thesis by (simp add: acc_get_def)
qed

lemma iterate_visit_total:
  "iterate visit_node ns acc = Inr acc' \<Longrightarrow> (ks, kd) \<in> set tracked \<Longrightarrow>
   acc_get acc kd (MInt 0) = MInt t \<Longrightarrow>
   acc_get acc' kd (MInt 0) = MInt (t + sum_list (map (counter ks) ns))"
proof (induction ns arbitrary: acc t)
  case Nil
  then show ?case by simp
next
  case (Cons nd ns)
  from Cons.prems(1) obtain a where a: "visit_node nd acc = Inr a"
    and r: "iterate visit_node ns a = Inr acc'"
    by (auto split: sum.splits)
  from a obtain n where nd: "nd = JObj n" by (cases nd) simp_all
  with a have "visit n acc = Inr a" by simp
  from visit_total [OF this Cons.prems(2,3)] have "acc_get a kd (MInt 0) = MInt (t + counter ks nd)"
    by (simp add: nd)
  from Cons.IH [OF r Cons.prems(2) this] show ?case by (simp add: add.assoc)
qed

lemma iterate_member_Inr:
  "iterate f xs s = Inr s' \<Longrightarrow> x \<in> set xs \<Longrightarrow> \<exists>a b. f x a = Inr b"
proof (induction xs arbitrary: s)
  case Nil
  then show ?case by simp
next
  case (Cons y ys)
  from Cons.prems(1) obtain a where a: "f y s = Inr a" and r: "iterate f ys a = Inr s'"
    by (auto split: sum.splits)
  with Cons.IH [OF r] Cons.prems(2) show ?case by auto
qed

lemma add_counter_converts:
  "add_counter n (ks, kd) a = Inr b \<Longrightarrow> counter_of ks (JObj n) = Inr (counter ks (JObj n))"
  by (auto simp: add_counter_def bnd_Inr_iff counter_def counter_of_def split: option.splits)

lemma visit_converts:
  assumes "visit n acc = Inr acc'" "(ks, kd) \<in> set tracked"
  shows "counter_of ks (JObj n) = Inr (counter ks (JObj n))"
proof -
  from assms(1) obtain a where "iterate (add_counter n) tracked acc = Inr a"
    by (auto simp: visit_def bnd_Inr_iff)
  from iterate_member_Inr [OF this assms(2)] show ?thesis by (auto dest: add_counter_converts)
qed

lemma iterate_visit_converts:
  assumes "iterate visit_node ns acc = Inr acc'" "(ks, kd) \<in> set tracked" "nd \<in> set ns"
  shows "counter_of ks nd = Inr (counter ks nd)"
proof -
  from iterate_member_Inr [OF assms(1,3)] obtain a b where v: "visit_node nd a = Inr b" by blast
  then obtain n where nd: "nd = JObj n" by (cases nd) simp_all
  with v have "visit n a = Inr b" by simp
  from visit_converts [OF this assms(2)] nd show ?thesis by simp
qed

lemma sum_list_counter_perm:
  "mset ns = mset ms \<Longrightarrow> sum_list (map (counter ks) ns) = sum_list (map (counter ks) ms)"
proof -
  assume "mset ns = mset ms"
  then have "mset (map (counter ks) ns) = mset (map (counter ks) ms)" by simp
  then have "sum_mset (mset (map (counter ks) ns)) = sum_mset (mset (map (counter ks) ms))"
    by (rule arg_cong)
  then show ?thesis by (simp only: sum_mset_sum_list)
qed

subsection \<open>A counter that no node has\<close>

lemma iterate_add_counter_absent:
  "iterate (add_counter n) prs acc = Inr acc' \<Longrightarrow>
   (\<forall>kk \<in> set prs. snd kk = kd \<longrightarrow> map_of n (fst kk) = None) \<Longrightarrow> acc' kd = acc kd"
proof (induction prs arbitrary: acc)
  case Nil
  then show ?case by simp
next
  case (Cons kk prs)
  from Cons.prems(1) obtain a where a: "add_counter n kk acc = Inr a"
    and r: "iterate (add_counter n) prs a = Inr acc'"
    by (auto split: sum.splits)
  have "a kd = acc kd"
  proof (cases "snd kk = kd")
    case True
    with Cons.prems(2) have "map_of n (fst kk) = None" by simp
    from add_counter_absent [OF this] a show ?thesis by simp
  next
    case False
    with add_counter_other [OF a] show ?thesis by simp
  qed
  moreover from Cons.IH [OF r] Cons.prems(2) have "acc' kd = a kd" by simp
  ultimately show ?case by simp
qed

lemma tracked_src: "(ks, kd) \<in> set tracked \<Longrightarrow> kk \<in> set tracked \<Longrightarrow> snd kk = kd \<Longrightarrow> fst kk = ks"
  by (auto simp: tracked_def)

lemma visit_absent:
  assumes "visit n acc = Inr acc'" "(ks, kd) \<in> set tracked" "map_of n ks = None"
  shows "acc' kd = acc kd"
proof -
  from assms(1) obtain a where a: "iterate (add_counter n) tracked acc = Inr a"
    and c: "count_node_type n a = Inr acc'"
    by (auto simp: visit_def bnd_Inr_iff)
  have "\<forall>kk \<in> set tracked. snd kk = kd \<longrightarrow> map_of n (fst kk) = None"
    using tracked_src [OF assms(2)] assms(3) by auto
  from iterate_add_counter_absent [OF a this]
    count_node_type_other [OF c tracked_not_scan_types [OF assms(2)]]
  show ?thesis by simp
qed

lemma iterate_visit_absent:
  "iterate visit_node ns acc = Inr acc' \<Longrightarrow> (ks, kd) \<in> set tracked \<Longrightarrow>
   \<forall>nd \<in> set ns. \<not> has_key nd ks \<Longrightarrow> acc' kd = acc kd"
proof (induction ns arbitrary: acc)
  case Nil
  then show ?case by simp
next
  case (Cons nd ns)
  from Cons.prems(1) obtain a where a: "visit_node nd acc = Inr a"
    and r: "iterate visit_node ns a = Inr acc'"
    by (auto split: sum.splits)
  from a obtain n where nd: "nd = JObj n" by (cases nd) simp_all
  with a have v: "visit n acc = Inr a" by simp
  from Cons.prems(3) nd have "map_of n ks = None" by (simp add: has_key_def)
  from visit_absent [OF v Cons.prems(2) this] have "a kd = acc kd" .
  moreover from Cons.IH [OF r Cons.prems(2)] Cons.prems(3) have "acc' kd = a kd" by simp
  ultimately show ?case by simp
qed

lemma tracked_dst_cases:
  "(ks, kd) \<in> set tracked \<Longrightarrow> kd \<noteq> py ''total_cost_total'' \<and> kd \<noteq> py ''plan_rows_root_sum''
     \<and> kd \<noteq> py ''actual_rows_root_sum'' \<and> kd \<noteq> py ''timeouts'' \<and> kd \<noteq> py ''combined_score''"
  by (auto simp: tracked_def)

lemma evaluate_internal_Inr:
  assumes "evaluate_internal env plan_json = Inr m"
  obtains plan acc tc pr ar rd sr sc where
    "root_plan plan_json = Inr plan" "walk plan Map.empty = Inr acc"
    "get_float plan (py ''Total Cost'') = Inr tc"
    "float_of_mval (acc_get acc (py ''shared_read_total'') (MFloat 0)) = Inr rd"
    "sub_score rd = Inr sr" "sub_score tc = Inr sc"
    "m = acc(py ''total_cost_total'' \<mapsto> MFloat tc, py ''plan_rows_root_sum'' \<mapsto> MInt pr,
             py ''actual_rows_root_sum'' \<mapsto> MInt ar, py ''timeouts'' \<mapsto> MInt 0,
             py ''combined_score'' \<mapsto>
               MFloat (fst (cs_weights_no_time env) * sr + snd (cs_weights_no_time env) * sc))"
proof -
  from assms have "\<exists>plan acc tc pr ar rd sr sc.
    root_plan plan_json = Inr plan \<and> walk plan Map.empty = Inr acc
    \<and> get_float plan (py ''Total Cost'') = Inr tc
    \<and> float_of_mval (acc_get acc (py ''shared_read_total'') (MFloat 0)) = Inr rd
    \<and> sub_score rd = Inr sr \<and> sub_score tc = Inr sc
    \<and> m = acc(py ''total_cost_total'' \<mapsto> MFloat tc, py ''plan_rows_root_sum'' \<mapsto> MInt pr,
             py ''actual_rows_root_sum'' \<mapsto> MInt ar, py ''timeouts'' \<mapsto> MInt 0,
             py ''combined_score'' \<mapsto>
               MFloat (fst (cs_weights_no_time env) * sr + snd (cs_weights_no_time env) * sc))"
    by (simp add: evaluate_internal_def bnd_Inr_iff Let_def acc_get_def case_prod_beta) blast
  with that show thesis by blast
qed

subsection \<open>The score\<close>

lemma sub_score_nonneg: "0 \<le> x \<Longrightarrow> sub_score x = Inr (1 / (1 + ln (1 + x)))"
proof -
  assume x: "0 \<le> x"
  then have "0 \<le> ln (1 + x)" by simp
  then have "1 + ln (1 + x) \<noteq> 0" by linarith
  with x show ?thesis by (simp add: sub_score_def log1p_def bnd_def)
qed

lemmas parse_defs = float_of_str_def int_of_str_def py_def strip_def is_space_def is_digit_def
  signed_def exponent_of_def digits_val_def

lemma default_weights: "cs_weights_no_time None = (85 / 100, 15 / 100)"
  by (simp add: cs_weights_no_time_def parse_defs)






subsection \<open>Fields that are missing or false\<close>





lemma group_of_update: "group_of (AList.update key g acc) key = g"
  by (simp add: group_of_def update_conv')

section \<open>Claims about the Aggregator\<close>

text \<open>
  Claim C2. When the walk of a plan tree returns, then for each of the five tracked
  counters the total under its target key (read with the default 0) is the sum of
  \<^verbatim>\<open>int(n[k] or 0)\<close> over the nodes of the tree, a node without the key counting zero
  and the conversion returning a number at every node. The sum is the same for every
  order in which the nodes are listed, and visiting the nodes in any such order, when it
  returns, gives the same total.
\<close>

theorem aggregator_totals:
  assumes "walk plan Map.empty = Inr acc" and "(ks, kd) \<in> set tracked"
  shows "acc_get acc kd (MInt 0) = MInt (sum_list (map (counter ks) (nodes plan)))
    \<and> (\<forall>nd \<in> set (nodes plan). counter_of ks nd = Inr (counter ks nd))
    \<and> (\<forall>ns. mset ns = mset (nodes plan) \<longrightarrow>
          sum_list (map (counter ks) ns) = sum_list (map (counter ks) (nodes plan))
          \<and> (\<forall>acc'. iterate visit_node ns Map.empty = Inr acc' \<longrightarrow>
                acc_get acc' kd (MInt 0) = acc_get acc kd (MInt 0)))"
proof -
  have e: "acc_get Map.empty kd (MInt 0) = MInt 0" by (simp add: acc_get_def)
  note it = walk_nodes [OF assms(1)]
  from iterate_visit_total [OF it assms(2) e]
  have t: "acc_get acc kd (MInt 0) = MInt (sum_list (map (counter ks) (nodes plan)))" by simp
  have c: "\<forall>nd \<in> set (nodes plan). counter_of ks nd = Inr (counter ks nd)"
    using iterate_visit_converts [OF it assms(2)] by blast
  have p: "sum_list (map (counter ks) ns) = sum_list (map (counter ks) (nodes plan))
      \<and> (\<forall>acc'. iterate visit_node ns Map.empty = Inr acc' \<longrightarrow>
            acc_get acc' kd (MInt 0) = acc_get acc kd (MInt 0))"
    if m: "mset ns = mset (nodes plan)" for ns
  proof -
    from m have s: "sum_list (map (counter ks) ns) = sum_list (map (counter ks) (nodes plan))"
      by (rule sum_list_counter_perm)
    have "acc_get acc' kd (MInt 0) = acc_get acc kd (MInt 0)"
      if "iterate visit_node ns Map.empty = Inr acc'" for acc'
      using iterate_visit_total [OF that assms(2) e] s t by simp
    with s show ?thesis by blast
  qed
  from t c p show ?thesis by blast
qed

theorem aggregator_totals_witness:
  "\<exists>acc. walk two_scans Map.empty = Inr acc
     \<and> (py ''Shared Read Blocks'', py ''shared_read_total'') \<in> set tracked
     \<and> acc_get acc (py ''shared_read_total'') (MInt 0) = MInt 80"
proof -
  have "\<exists>acc. walk two_scans Map.empty = Inr acc"
    by (simp add: two_scans_def eval_defs)
  then obtain acc where w: "walk two_scans Map.empty = Inr acc" ..
  have k: "(py ''Shared Read Blocks'', py ''shared_read_total'') \<in> set tracked"
    by (simp add: tracked_def)
  have "sum_list (map (counter (py ''Shared Read Blocks'')) (nodes two_scans)) = 80"
    by (simp add: two_scans_def eval_defs counter_def counter_of_def)
  with aggregator_totals [OF w k] w k show ?thesis by simp
qed

text \<open>
  Claim C10. When one of the five counter fields is in no node of the plan tree, the
  metrics that \<^verbatim>\<open>evaluate_internal\<close> returns, and the accumulator of the walk before
  them, have no entry under the counter's target key; read with the default 0 the total
  is 0.
\<close>

theorem absent_counter_no_key:
  assumes "(ks, kd) \<in> set tracked" and "evaluate_internal env plan_json = Inr m"
    and "root_plan plan_json = Inr plan" and "\<forall>nd \<in> set (nodes plan). \<not> has_key nd ks"
  shows "m kd = None \<and> (\<exists>acc. walk plan Map.empty = Inr acc \<and> acc kd = None)
    \<and> acc_get m kd (MInt 0) = MInt 0"
proof -
  from assms(2) obtain plan' acc tc pr ar sr sc where p: "root_plan plan_json = Inr plan'"
    and w: "walk plan' Map.empty = Inr acc"
    and m: "m = acc(py ''total_cost_total'' \<mapsto> MFloat tc, py ''plan_rows_root_sum'' \<mapsto> MInt pr,
             py ''actual_rows_root_sum'' \<mapsto> MInt ar, py ''timeouts'' \<mapsto> MInt 0,
             py ''combined_score'' \<mapsto>
               MFloat (fst (cs_weights_no_time env) * sr + snd (cs_weights_no_time env) * sc))"
    by (rule evaluate_internal_Inr)
  from p assms(3) have pp: "plan' = plan" by simp
  from iterate_visit_absent [OF walk_nodes [OF w] assms(1)] assms(4) pp
  have a: "acc kd = None" by simp
  with m tracked_dst_cases [OF assms(1)] have "m kd = None" by simp
  with a w pp show ?thesis by (auto simp: acc_get_def)
qed

theorem absent_counter_no_key_witness:
  "\<exists>m. (py ''Temp Read Blocks'', py ''temp_read_total'') \<in> set tracked
     \<and> evaluate_internal None two_scans = Inr m
     \<and> root_plan two_scans = Inr two_scans
     \<and> (\<forall>nd \<in> set (nodes two_scans). \<not> has_key nd (py ''Temp Read Blocks''))
     \<and> m (py ''temp_read_total'') = None"
proof -
  have k: "(py ''Temp Read Blocks'', py ''temp_read_total'') \<in> set tracked"
    by (simp add: tracked_def)
  have "\<exists>m. evaluate_internal None two_scans = Inr m"
    by (simp add: evaluate_internal_def root_plan_def plan_of_def two_scans_def eval_defs
        get_float_def get_int_def sub_score_nonneg default_weights)
  then obtain m where e: "evaluate_internal None two_scans = Inr m" ..
  have r: "root_plan two_scans = Inr two_scans"
    by (simp add: root_plan_def plan_of_def two_scans_def eval_defs)
  have a: "\<forall>nd \<in> set (nodes two_scans). \<not> has_key nd (py ''Temp Read Blocks'')"
    by (simp add: two_scans_def eval_defs has_key_def)
  from absent_counter_no_key [OF k e r a] k e r a show ?thesis by blast
qed




section \<open>The walks return on plain nodes\<close>


















section \<open>Claims about numeric fields\<close>




section \<open>The walk of the Ranker visits every node once\<close>

lemma iterate_walk_node_nodes:
  assumes "\<And>ch a a'. ch \<in> set chs \<Longrightarrow> walk_node so ch a = Inr a' \<Longrightarrow>
             iterate (add_node_at so) (nodes ch) a = Inr a'"
  shows "iterate (walk_node so) chs a = Inr a' \<Longrightarrow>
         iterate (add_node_at so) (concat (map nodes chs)) a = Inr a'"
  using assms
proof (induction chs arbitrary: a)
  case Nil
  then show ?case by simp
next
  case (Cons c cs)
  from Cons.prems(1) obtain a1 where w: "walk_node so c a = Inr a1"
    and r: "iterate (walk_node so) cs a1 = Inr a'"
    by (auto split: sum.splits)
  have "iterate (add_node_at so) (nodes c) a = Inr a1" using Cons.prems(2) w by simp
  moreover have "iterate (add_node_at so) (concat (map nodes cs)) a1 = Inr a'"
    using Cons.IH [OF r] Cons.prems(2) by simp
  ultimately show ?case by (simp add: iterate_append bnd_def)
qed

lemma walk_node_nodes:
  "walk_node so n acc = Inr acc' \<Longrightarrow> iterate (add_node_at so) (nodes n) acc = Inr acc'"
proof (induction so n acc arbitrary: acc' rule: walk_node.induct)
  case (1 so n acc)
  from "1.prems" obtain a chs where v: "add_node so n acc = Inr a" and p: "plans n = Inr chs"
    and r: "iterate (walk_node so) chs a = Inr acc'"
    by (auto simp: bnd_Inr_iff)
  have "iterate (add_node_at so) (concat (map nodes chs)) a = Inr acc'"
    using r "1.IH" [OF v p] by (rule iterate_walk_node_nodes [rotated])
  with v p show ?case by simp
qed simp_all

text \<open>What one node does to the groups.\<close>

lemma add_node_Inr:
  assumes "add_node so n acc = Inr acc'"
  obtains key g where "node_key n = Inr key" "acc' = AList.update key g acc"
    "shared_read g = shared_read (group_of acc key) + ival (py ''Shared Read Blocks'') (JObj n)"
    "rows_removed g = rows_removed (group_of acc key) + ival (py ''Rows Removed by Filter'') (JObj n)"
    "temp g = temp (group_of acc key)
       + (ival (py ''Temp Read Blocks'') (JObj n) + ival (py ''Temp Written Blocks'') (JObj n))"
    "cost g = cost (group_of acc key) + fval (py ''Total Cost'') (JObj n)"
    "count_n g = count_n (group_of acc key) + 1"
    "filters g = (if truthy (filter_of (JObj n)) then tally (filter_text so (filter_of (JObj n))) (filters (group_of acc key))
                  else filters (group_of acc key))"
proof -
  from assms obtain key sr rr tr tw tc where k: "node_key n = Inr key"
    and i: "get_int (JObj n) (py ''Shared Read Blocks'') = Inr sr"
      "get_int (JObj n) (py ''Rows Removed by Filter'') = Inr rr"
      "get_int (JObj n) (py ''Temp Read Blocks'') = Inr tr"
      "get_int (JObj n) (py ''Temp Written Blocks'') = Inr tw"
      "get_float (JObj n) (py ''Total Cost'') = Inr tc"
    and a: "acc' = AList.update key
            \<lparr>shared_read = shared_read (group_of acc key) + sr,
             rows_removed = rows_removed (group_of acc key) + rr,
             temp = temp (group_of acc key) + (tr + tw),
             cost = cost (group_of acc key) + tc,
             filters = (if truthy (dict_get n (py ''Filter'') JNull)
                        then tally (filter_text so (dict_get n (py ''Filter'') JNull)) (filters (group_of acc key))
                        else filters (group_of acc key)),
             count_n = count_n (group_of acc key) + 1\<rparr> acc"
    by (auto simp: add_node_def bnd_Inr_iff Let_def)
  show thesis
    by (rule that [OF k a]) (simp_all add: i ival_def fval_def filter_of_def)
qed

lemma add_node_reads:
  assumes "add_node so n acc = Inr acc'"
  shows "(\<forall>k \<in> set int_fields. get_int (JObj n) k = Inr (ival k (JObj n)))
    \<and> get_float (JObj n) (py ''Total Cost'') = Inr (fval (py ''Total Cost'') (JObj n))"
  using assms by (auto simp: add_node_def bnd_Inr_iff Let_def int_fields_def ival_def fval_def)

lemma group_of_update_other: "k \<noteq> key \<Longrightarrow> group_of (AList.update key g acc) k = group_of acc k"
  by (simp add: group_of_def update_conv')

lemma add_node_at_key: "add_node_at so nd acc = Inr acc' \<Longrightarrow> \<exists>n key. nd = JObj n \<and> node_key n = Inr key"
  by (cases nd) (auto elim: add_node_Inr)

lemma iterate_add_node_sum:
  fixes f :: "group \<Rightarrow> 'a::comm_monoid_add" and c :: "json \<Rightarrow> 'a"
  assumes step: "\<And>n acc acc' k. add_node so n acc = Inr acc' \<Longrightarrow> node_key n = Inr k \<Longrightarrow>
     f (group_of acc' k) = f (group_of acc k) + c (JObj n)"
  shows "iterate (add_node_at so) ns acc = Inr acc' \<Longrightarrow>
     f (group_of acc' key) = f (group_of acc key) + sum_list (map c (filter (\<lambda>nd. key_of nd = Inr key) ns))"
proof (induction ns arbitrary: acc)
  case Nil
  then show ?case by simp
next
  case (Cons nd ns)
  from Cons.prems obtain a where a: "add_node_at so nd acc = Inr a"
    and r: "iterate (add_node_at so) ns a = Inr acc'"
    by (auto split: sum.splits)
  from add_node_at_key [OF a] obtain n k where nd: "nd = JObj n" and k: "node_key n = Inr k" by blast
  from a nd have an: "add_node so n acc = Inr a" by simp
  have "f (group_of a key) = f (group_of acc key) + (if k = key then c nd else 0)"
  proof (cases "k = key")
    case True
    with step [OF an k] nd show ?thesis by simp
  next
    case False
    from an k obtain g where "a = AList.update k g acc" by (auto elim: add_node_Inr)
    with False show ?thesis by (simp add: group_of_update_other)
  qed
  with Cons.IH [OF r] nd k show ?case by (simp add: key_of_def add.assoc)
qed

lemma iterate_add_node_keys:
  "iterate (add_node_at so) ns acc = Inr acc' \<Longrightarrow>
   fst ` set acc' = fst ` set acc \<union> {key. \<exists>nd \<in> set ns. key_of nd = Inr key}
   \<and> (distinct (map fst acc) \<longrightarrow> distinct (map fst acc'))"
proof (induction ns arbitrary: acc)
  case Nil
  then show ?case by simp
next
  case (Cons nd ns)
  from Cons.prems obtain a where a: "add_node_at so nd acc = Inr a"
    and r: "iterate (add_node_at so) ns a = Inr acc'"
    by (auto split: sum.splits)
  from add_node_at_key [OF a] obtain n k where nd: "nd = JObj n" and k: "node_key n = Inr k" by blast
  from a nd k obtain g where u: "a = AList.update k g acc" by (auto elim: add_node_Inr)
  then have "fst ` set a = insert k (fst ` set acc)" by (simp add: dom_update)
  moreover from u have "distinct (map fst acc) \<longrightarrow> distinct (map fst a)" by (simp add: distinct_update)
  moreover have "key_of nd = Inr k" using nd k by (simp add: key_of_def)
  ultimately show ?case using Cons.IH [OF r] by auto
qed

lemma group_of_map_of: "map_of acc key = Some g \<Longrightarrow> group_of acc key = g"
  by (simp add: group_of_def)

lemma group_of_Nil: "group_of [] key = new_group"
  by (simp add: group_of_def)

lemma walk_node_sums:
  assumes "walk_node so plan [] = Inr local"
  shows "shared_read (group_of local key) = sum_list (map (ival (py ''Shared Read Blocks'')) (members key plan))"
    and "rows_removed (group_of local key) = sum_list (map (ival (py ''Rows Removed by Filter'')) (members key plan))"
    and "temp (group_of local key) = sum_list (map (\<lambda>nd. ival (py ''Temp Read Blocks'') nd
            + ival (py ''Temp Written Blocks'') nd) (members key plan))"
    and "cost (group_of local key) = sum_list (map (fval (py ''Total Cost'')) (members key plan))"
    and "count_n (group_of local key) = int (length (members key plan))"
proof -
  note it = walk_node_nodes [OF assms]
  have "shared_read (group_of local key) = shared_read (group_of [] key)
      + sum_list (map (ival (py ''Shared Read Blocks'')) (filter (\<lambda>nd. key_of nd = Inr key) (nodes plan)))"
    by (rule iterate_add_node_sum [OF _ it]) (auto elim!: add_node_Inr simp: group_of_update)
  then show "shared_read (group_of local key) = sum_list (map (ival (py ''Shared Read Blocks'')) (members key plan))"
    by (simp add: group_of_Nil new_group_def members_def)
  have "rows_removed (group_of local key) = rows_removed (group_of [] key)
      + sum_list (map (ival (py ''Rows Removed by Filter'')) (filter (\<lambda>nd. key_of nd = Inr key) (nodes plan)))"
    by (rule iterate_add_node_sum [OF _ it]) (auto elim!: add_node_Inr simp: group_of_update)
  then show "rows_removed (group_of local key) = sum_list (map (ival (py ''Rows Removed by Filter'')) (members key plan))"
    by (simp add: group_of_Nil new_group_def members_def)
  have "temp (group_of local key) = temp (group_of [] key)
      + sum_list (map (\<lambda>nd. ival (py ''Temp Read Blocks'') nd + ival (py ''Temp Written Blocks'') nd)
          (filter (\<lambda>nd. key_of nd = Inr key) (nodes plan)))"
    by (rule iterate_add_node_sum [OF _ it]) (auto elim!: add_node_Inr simp: group_of_update)
  then show "temp (group_of local key) = sum_list (map (\<lambda>nd. ival (py ''Temp Read Blocks'') nd
            + ival (py ''Temp Written Blocks'') nd) (members key plan))"
    by (simp add: group_of_Nil new_group_def members_def)
  have "cost (group_of local key) = cost (group_of [] key)
      + sum_list (map (fval (py ''Total Cost'')) (filter (\<lambda>nd. key_of nd = Inr key) (nodes plan)))"
    by (rule iterate_add_node_sum [OF _ it]) (auto elim!: add_node_Inr simp: group_of_update)
  then show "cost (group_of local key) = sum_list (map (fval (py ''Total Cost'')) (members key plan))"
    by (simp add: group_of_Nil new_group_def members_def)
  have "count_n (group_of local key) = count_n (group_of [] key)
      + sum_list (map (\<lambda>nd. 1) (filter (\<lambda>nd. key_of nd = Inr key) (nodes plan)))"
    by (rule iterate_add_node_sum [OF _ it]) (auto elim!: add_node_Inr simp: group_of_update)
  then show "count_n (group_of local key) = int (length (members key plan))"
    by (simp add: group_of_Nil new_group_def members_def sum_list_triv)
qed

lemma walk_node_reads:
  assumes "walk_node so plan [] = Inr local" "nd \<in> set (nodes plan)"
  shows "(\<forall>k \<in> set int_fields. get_int nd k = Inr (ival k nd))
    \<and> get_float nd (py ''Total Cost'') = Inr (fval (py ''Total Cost'') nd)"
proof -
  from iterate_member_Inr [OF walk_node_nodes [OF assms(1)] assms(2)]
  obtain a b where v: "add_node_at so nd a = Inr b" by blast
  then obtain n where nd: "nd = JObj n" by (cases nd) simp_all
  with v have "add_node so n a = Inr b" by simp
  from add_node_reads [OF this] nd show ?thesis by simp
qed

lemma walk_node_keys:
  assumes "walk_node so plan [] = Inr local"
  shows "distinct (map fst local)"
    and "fst ` set local = {key. \<exists>nd \<in> set (nodes plan). key_of nd = Inr key}"
  using iterate_add_node_keys [OF walk_node_nodes [OF assms]] by simp_all

lemmas rank_defs = add_node_def node_key_def get_int_def get_float_def group_of_def new_group_def
  ranker_plan_def plan_of_def

lemma two_scans_groups:
  "walk_node str_unused two_scans [] =
     Inr [((KStr (py ''Hash Join''), KStr (py ''?'')),
           \<lparr>shared_read = 0, rows_removed = 0, temp = 0, cost = 0, filters = [], count_n = 1\<rparr>),
          ((KStr (py ''Seq Scan''), KStr (py ''orders'')),
           \<lparr>shared_read = 80, rows_removed = 0, temp = 0, cost = 3000, filters = [], count_n = 2\<rparr>)]"
  by (simp add: two_scans_def eval_defs rank_defs)

lemma two_scans_topk:
  "summarize_topk str_unused None two_scans (Some (9 / 10)) None =
     Inr [((KStr (py ''Seq Scan''), KStr (py ''orders'')),
           \<lparr>shared_read = 80, rows_removed = 0, temp = 0, cost = 3000, filters = [], count_n = 2\<rparr>,
           3 * ln 81 + ln 4)]"
proof -
  define S :: real where "S = 3 * ln 81 + ln 4"
  have S: "0 < S" by (simp add: S_def add_pos_pos)
  have p: "ranker_plan two_scans = Inr two_scans"
    by (simp add: two_scans_def ranker_plan_def plan_of_def eval_defs)
  have r: "severity \<lparr>shared_read = 0, rows_removed = 0, temp = 0, cost = 0, filters = [], count_n = 1\<rparr> = Inr 0"
    "severity \<lparr>shared_read = 80, rows_removed = 0, temp = 0, cost = 3000, filters = [], count_n = 2\<rparr> = Inr S"
    by (simp_all add: severity_def log1p_def bnd_def S_def)
  have "ranked_groups str_unused two_scans
      = Inr [((KStr (py ''Seq Scan''), KStr (py ''orders'')),
           \<lparr>shared_read = 80, rows_removed = 0, temp = 0, cost = 3000, filters = [], count_n = 2\<rparr>, S),
          ((KStr (py ''Hash Join''), KStr (py ''?'')),
           \<lparr>shared_read = 0, rows_removed = 0, temp = 0, cost = 0, filters = [], count_n = 1\<rparr>, 0)]"
    using S by (simp add: ranked_groups_def p two_scans_groups r bnd_def sort_desc_def sev_def)
  then have "summarize_topk str_unused None two_scans (Some (9 / 10)) None
      = Inr [((KStr (py ''Seq Scan''), KStr (py ''orders'')),
           \<lparr>shared_read = 80, rows_removed = 0, temp = 0, cost = 3000, filters = [], count_n = 2\<rparr>, S)]"
    using S by (simp add: summarize_topk_def bnd_def select_def total_of_def sev_def clamp01_def)
  then show ?thesis by (simp add: S_def)
qed

section \<open>Claims about the grouping\<close>

text \<open>
  Claim C4. When the grouping walk of a plan tree returns, no key occurs twice in its
  groups, the keys are those of the nodes of the tree, and the group of a key holds, for
  each counter, the sum over the nodes with that key of what the node holds (every
  conversion having returned a number). For the join over two scans of
  \<^verbatim>\<open>orders\<close> with 50 and 30 blocks read at costs 1000 and 2000 the walk gives one group
  for the join and one for \<^verbatim>\<open>("Seq Scan", "orders")\<close> with 80 blocks read and cost 3000,
  and under the default pareto fraction 0.90 that group is the one entry of the result.
\<close>

theorem one_group_per_key:
  "(\<forall>so plan local. walk_node so plan [] = Inr local \<longrightarrow>
      distinct (map fst local)
      \<and> fst ` set local = {key. \<exists>nd \<in> set (nodes plan). key_of nd = Inr key}
      \<and> (\<forall>nd \<in> set (nodes plan).
            (\<forall>k \<in> set int_fields. get_int nd k = Inr (ival k nd))
            \<and> get_float nd (py ''Total Cost'') = Inr (fval (py ''Total Cost'') nd))
      \<and> (\<forall>key g. map_of local key = Some g \<longrightarrow>
            shared_read g = sum_list (map (ival (py ''Shared Read Blocks'')) (members key plan))
          \<and> rows_removed g = sum_list (map (ival (py ''Rows Removed by Filter'')) (members key plan))
          \<and> temp g = sum_list (map (\<lambda>nd. ival (py ''Temp Read Blocks'') nd
                + ival (py ''Temp Written Blocks'') nd) (members key plan))
          \<and> cost g = sum_list (map (fval (py ''Total Cost'')) (members key plan))
          \<and> count_n g = int (length (members key plan))))
   \<and> walk_node str_unused two_scans [] =
       Inr [((KStr (py ''Hash Join''), KStr (py ''?'')),
             \<lparr>shared_read = 0, rows_removed = 0, temp = 0, cost = 0, filters = [], count_n = 1\<rparr>),
            ((KStr (py ''Seq Scan''), KStr (py ''orders'')),
             \<lparr>shared_read = 80, rows_removed = 0, temp = 0, cost = 3000, filters = [], count_n = 2\<rparr>)]
   \<and> summarize_topk str_unused None two_scans (Some (9 / 10)) None =
       Inr [((KStr (py ''Seq Scan''), KStr (py ''orders'')),
             \<lparr>shared_read = 80, rows_removed = 0, temp = 0, cost = 3000, filters = [], count_n = 2\<rparr>,
             3 * ln 81 + ln 4)]"
proof -
  have "distinct (map fst local)
      \<and> fst ` set local = {key. \<exists>nd \<in> set (nodes plan). key_of nd = Inr key}
      \<and> (\<forall>nd \<in> set (nodes plan).
            (\<forall>k \<in> set int_fields. get_int nd k = Inr (ival k nd))
            \<and> get_float nd (py ''Total Cost'') = Inr (fval (py ''Total Cost'') nd))
      \<and> (\<forall>key g. map_of local key = Some g \<longrightarrow>
            shared_read g = sum_list (map (ival (py ''Shared Read Blocks'')) (members key plan))
          \<and> rows_removed g = sum_list (map (ival (py ''Rows Removed by Filter'')) (members key plan))
          \<and> temp g = sum_list (map (\<lambda>nd. ival (py ''Temp Read Blocks'') nd
                + ival (py ''Temp Written Blocks'') nd) (members key plan))
          \<and> cost g = sum_list (map (fval (py ''Total Cost'')) (members key plan))
          \<and> count_n g = int (length (members key plan)))"
    if w: "walk_node so plan [] = Inr local" for so plan local
  proof -
    have "shared_read g = sum_list (map (ival (py ''Shared Read Blocks'')) (members key plan))
          \<and> rows_removed g = sum_list (map (ival (py ''Rows Removed by Filter'')) (members key plan))
          \<and> temp g = sum_list (map (\<lambda>nd. ival (py ''Temp Read Blocks'') nd
                + ival (py ''Temp Written Blocks'') nd) (members key plan))
          \<and> cost g = sum_list (map (fval (py ''Total Cost'')) (members key plan))
          \<and> count_n g = int (length (members key plan))"
      if "map_of local key = Some g" for key g
      using walk_node_sums [OF w, of key] group_of_map_of [OF that] by simp
    with walk_node_keys [OF w] walk_node_reads [OF w] show ?thesis by blast
  qed
  with two_scans_groups two_scans_topk show ?thesis by blast
qed

theorem one_group_per_key_witness:
  "\<exists>local g. walk_node str_unused two_scans [] = Inr local
     \<and> map_of local (KStr (py ''Seq Scan''), KStr (py ''orders'')) = Some g
     \<and> length (filter (\<lambda>kg. fst kg = (KStr (py ''Seq Scan''), KStr (py ''orders''))) local) = 1
     \<and> shared_read g = 80 \<and> cost g = 3000 \<and> count_n g = 2"
proof -
  let ?k = "(KStr (py ''Seq Scan''), KStr (py ''orders''))"
  from one_group_per_key obtain local where w: "walk_node str_unused two_scans [] = Inr local"
    and m0: "local = [((KStr (py ''Hash Join''), KStr (py ''?'')),
             \<lparr>shared_read = 0, rows_removed = 0, temp = 0, cost = 0, filters = [], count_n = 1\<rparr>),
            ((KStr (py ''Seq Scan''), KStr (py ''orders'')),
             \<lparr>shared_read = 80, rows_removed = 0, temp = 0, cost = 3000, filters = [], count_n = 2\<rparr>)]"
    by blast
  from m0 obtain g where m: "map_of local ?k = Some g" by simp
  from m0 have one: "length (filter (\<lambda>kg. fst kg = ?k) local) = 1" by simp
  have mem: "members ?k two_scans = tl (nodes two_scans)"
    by (simp add: members_def key_of_def two_scans_def eval_defs rank_defs)
  from one_group_per_key w m
  have "shared_read g = sum_list (map (ival (py ''Shared Read Blocks'')) (members ?k two_scans))"
    and "cost g = sum_list (map (fval (py ''Total Cost'')) (members ?k two_scans))"
    and "count_n g = int (length (members ?k two_scans))"
    by blast+
  moreover have "sum_list (map (ival (py ''Shared Read Blocks'')) (tl (nodes two_scans))) = 80"
    "sum_list (map (fval (py ''Total Cost'')) (tl (nodes two_scans))) = 3000"
    "int (length (tl (nodes two_scans))) = 2"
    by (simp_all add: ival_def fval_def two_scans_def eval_defs rank_defs)
  ultimately have "shared_read g = 80" "cost g = 3000" "count_n g = 2"
    by (simp_all only: mem)
  with w m one show ?thesis by blast
qed

section \<open>Claims about the filter text\<close>

lemma ellipsize_length: "length (ellipsize s) \<le> 141"
  by (simp add: ellipsize_def)

lemma ellipsize_long: "140 < length s \<Longrightarrow> ellipsize s = take 140 s @ [ellipsis]"
  by (simp add: ellipsize_def)

lemma ellipsize_short: "length s \<le> 140 \<Longrightarrow> ellipsize s = s"
  by (simp add: ellipsize_def)

lemma filter_text_shape:
  "length (filter_text so filt) \<le> 141
   \<and> (140 < length (py_str so filt) \<longrightarrow>
        filter_text so filt = take 140 (map (\<lambda>c. if c = 10 then 32 else c) (py_str so filt)) @ [ellipsis])
   \<and> (length (py_str so filt) \<le> 140 \<longrightarrow>
        filter_text so filt = map (\<lambda>c. if c = 10 then 32 else c) (py_str so filt))"
  by (simp add: filter_text_def ellipsize_length ellipsize_long ellipsize_short)

lemma tally_keys: "fst ` set (tally s h) = insert s (fst ` set h)"
  by (simp add: tally_def dom_update)

lemma add_node_tallied:
  assumes "add_node so n acc = Inr acc'" "node_key n = Inr k"
  shows "tallied acc' key =
     (if key = k \<and> truthy (filter_of (JObj n))
      then insert (filter_text so (filter_of (JObj n))) (tallied acc key) else tallied acc key)"
proof -
  from assms obtain g where u: "acc' = AList.update k g acc"
    and f: "filters g = (if truthy (filter_of (JObj n))
        then tally (filter_text so (filter_of (JObj n))) (filters (group_of acc k))
        else filters (group_of acc k))"
    by (auto elim: add_node_Inr)
  show ?thesis
  proof (cases "key = k")
    case True
    with u f show ?thesis by (simp add: tallied_def group_of_update tally_keys)
  next
    case False
    with u show ?thesis by (simp add: tallied_def group_of_update_other)
  qed
qed

lemma iterate_add_node_tallied:
  "iterate (add_node_at so) ns acc = Inr acc' \<Longrightarrow>
   tallied acc' key = tallied acc key
     \<union> {filter_text so (filter_of nd) | nd. nd \<in> set ns \<and> key_of nd = Inr key \<and> truthy (filter_of nd)}"
proof (induction ns arbitrary: acc)
  case Nil
  then show ?case by simp
next
  case (Cons nd ns)
  from Cons.prems obtain a where a: "add_node_at so nd acc = Inr a"
    and r: "iterate (add_node_at so) ns a = Inr acc'"
    by (auto split: sum.splits)
  from add_node_at_key [OF a] obtain n k where nd: "nd = JObj n" and k: "node_key n = Inr k" by blast
  from a nd have an: "add_node so n acc = Inr a" by simp
  have kk: "key_of nd = Inr k" using nd k by (simp add: key_of_def)
  from add_node_tallied [OF an k, of key] nd
  have "tallied a key = (if key = k \<and> truthy (filter_of nd)
      then insert (filter_text so (filter_of nd)) (tallied acc key) else tallied acc key)"
    by simp
  with Cons.IH [OF r] kk show ?case by auto
qed

lemma iterate_add_node_has_key:
  "iterate (add_node_at so) ns acc = Inr acc' \<Longrightarrow> nd \<in> set ns \<Longrightarrow> \<exists>key. key_of nd = Inr key"
proof (induction ns arbitrary: acc)
  case Nil
  then show ?case by simp
next
  case (Cons x ns)
  from Cons.prems(1) obtain a where a: "add_node_at so x acc = Inr a"
    and r: "iterate (add_node_at so) ns a = Inr acc'"
    by (auto split: sum.splits)
  from add_node_at_key [OF a] have "\<exists>key. key_of x = Inr key" by (auto simp: key_of_def)
  with Cons.IH [OF r] Cons.prems(2) show ?case by auto
qed

lemma tallied_Nil: "tallied [] key = {}"
  by (simp add: tallied_def group_of_def new_group_def)

text \<open>
  Claim C9. When the grouping walk returns, every text in the filter histogram of a
  group has at most 141 characters and is the cut text of a node of that group, and the
  text of every node with a true \<^verbatim>\<open>Filter\<close> is in the histogram of the node's group. The
  cut text is the first 140 characters (line feeds replaced by spaces) followed by the
  ellipsis when the original has more than 140, and the whole text otherwise.
\<close>

theorem filter_text_bounded:
  assumes "walk_node so plan [] = Inr local"
  shows "(\<forall>key g t. map_of local key = Some g \<longrightarrow> t \<in> fst ` set (filters g) \<longrightarrow>
            length t \<le> 141
            \<and> (\<exists>nd \<in> set (nodes plan). key_of nd = Inr key \<and> truthy (filter_of nd)
                 \<and> t = filter_text so (filter_of nd)))
    \<and> (\<forall>nd \<in> set (nodes plan). truthy (filter_of nd) \<longrightarrow>
          (\<exists>key g. key_of nd = Inr key \<and> map_of local key = Some g
             \<and> filter_text so (filter_of nd) \<in> fst ` set (filters g)))
    \<and> (\<forall>filt. length (filter_text so filt) \<le> 141
          \<and> (140 < length (py_str so filt) \<longrightarrow>
               filter_text so filt
                 = take 140 (map (\<lambda>c. if c = 10 then 32 else c) (py_str so filt)) @ [ellipsis])
          \<and> (length (py_str so filt) \<le> 140 \<longrightarrow>
               filter_text so filt = map (\<lambda>c. if c = 10 then 32 else c) (py_str so filt)))"
proof -
  note it = walk_node_nodes [OF assms]
  have t: "tallied local key
      = {filter_text so (filter_of nd) | nd. nd \<in> set (nodes plan) \<and> key_of nd = Inr key \<and> truthy (filter_of nd)}"
    for key
    using iterate_add_node_tallied [OF it, of key] by (simp add: tallied_Nil)
  have 1: "length t \<le> 141 \<and> (\<exists>nd \<in> set (nodes plan). key_of nd = Inr key \<and> truthy (filter_of nd)
                 \<and> t = filter_text so (filter_of nd))"
    if "map_of local key = Some g" "t \<in> fst ` set (filters g)" for key g t
  proof -
    from that have "t \<in> tallied local key" by (simp add: tallied_def group_of_map_of)
    with t [of key] obtain nd where "nd \<in> set (nodes plan)" "key_of nd = Inr key" "truthy (filter_of nd)"
      "t = filter_text so (filter_of nd)" by auto
    with filter_text_shape [of so "filter_of nd"] show ?thesis by auto
  qed
  have 2: "\<exists>key g. key_of nd = Inr key \<and> map_of local key = Some g
             \<and> filter_text so (filter_of nd) \<in> fst ` set (filters g)"
    if nd: "nd \<in> set (nodes plan)" and f: "truthy (filter_of nd)" for nd
  proof -
    from iterate_add_node_has_key [OF it nd] obtain key where k: "key_of nd = Inr key" ..
    with nd have "key \<in> fst ` set local" using walk_node_keys(2) [OF assms] by auto
    then obtain g where g: "map_of local key = Some g"
      by (cases "map_of local key") (auto simp: map_of_eq_None_iff)
    from t [of key] nd k f have "filter_text so (filter_of nd) \<in> tallied local key" by auto
    with g have "filter_text so (filter_of nd) \<in> fst ` set (filters g)"
      by (simp add: tallied_def group_of_map_of)
    with k g show ?thesis by blast
  qed
  from 1 2 filter_text_shape show ?thesis by blast
qed

theorem filter_text_bounded_witness:
  "\<exists>local g. walk_node str_unused long_filter [] = Inr local
     \<and> map_of local (KStr (py ''Seq Scan''), KStr (py ''orders'')) = Some g
     \<and> replicate 140 120 @ [ellipsis] \<in> fst ` set (filters g)
     \<and> length (replicate 140 120 @ [ellipsis]) \<le> 141"
proof -
  have "\<exists>local. walk_node str_unused long_filter [] = Inr local"
    by (simp add: long_filter_def eval_defs rank_defs)
  then obtain local where w: "walk_node str_unused long_filter [] = Inr local" ..
  have n: "long_filter \<in> set (nodes long_filter)"
    by (simp add: long_filter_def eval_defs)
  have f: "filter_of long_filter = JStr (replicate 150 120)"
    by (simp add: long_filter_def filter_of_def dict_get_def)
  then have tr: "truthy (filter_of long_filter)" by simp
  have k: "key_of long_filter = Inr (KStr (py ''Seq Scan''), KStr (py ''orders''))"
    by (simp add: long_filter_def key_of_def node_key_def eval_defs)
  have ft: "filter_text str_unused (filter_of long_filter) = replicate 140 120 @ [ellipsis]"
    by (simp add: f filter_text_def py_str_def ellipsize_def)
  from filter_text_bounded [OF w] n tr obtain key g where "key_of long_filter = Inr key"
    "map_of local key = Some g" "filter_text str_unused (filter_of long_filter) \<in> fst ` set (filters g)"
    by blast
  with k ft have "map_of local (KStr (py ''Seq Scan''), KStr (py ''orders'')) = Some g"
    "replicate 140 120 @ [ellipsis] \<in> fst ` set (filters g)" by simp_all
  moreover from filter_text_bounded [OF w] have "length (filter_text str_unused (filter_of long_filter)) \<le> 141"
    by blast
  ultimately show ?thesis using w ft by auto
qed

section \<open>The selection\<close>


lemma rank_all_keys: "rank_all local = Inr r \<Longrightarrow> map fst r = map fst local"
proof (induction local arbitrary: r)
  case Nil
  then show ?case by simp
next
  case (Cons kg local)
  obtain key m where kg: "kg = (key, m)" by (cases kg)
  from Cons.prems kg obtain r' where "rank_all local = Inr r'" "map fst r = key # map fst r'"
    by (auto simp: bnd_Inr_iff)
  with Cons.IH kg show ?case by simp
qed

lemma sort_desc_sorted: "sorted_wrt (\<lambda>a b. sev b \<le> sev a) (sort_desc r)"
proof -
  have "sorted (map (\<lambda>x. - sev x) (sort_desc r))" by (simp add: sort_desc_def)
  then show ?thesis by (simp add: sorted_map)
qed

lemma sort_desc_mset: "mset (sort_desc r) = mset r"
  by (simp add: sort_desc_def)

lemma ranked_groups_Inr:
  assumes "ranked_groups so doc = Inr ranked"
  obtains plan local r where "ranker_plan doc = Inr plan" "walk_node so plan [] = Inr local"
    "rank_all local = Inr r" "ranked = sort_desc r"
  using assms by (auto simp: ranked_groups_def bnd_Inr_iff)

lemma ranked_groups_props:
  assumes "ranked_groups so doc = Inr ranked"
  shows "sorted_wrt (\<lambda>a b. sev b \<le> sev a) ranked" and "distinct (map fst ranked)"
    and "ranker_plan doc = Inr plan \<Longrightarrow>
         set (map fst ranked) = {key. \<exists>nd \<in> set (nodes plan). key_of nd = Inr key}"
proof -
  from assms obtain plan' local r where p: "ranker_plan doc = Inr plan'"
    and w: "walk_node so plan' [] = Inr local" and r: "rank_all local = Inr r"
    and s: "ranked = sort_desc r"
    by (rule ranked_groups_Inr)
  from s show "sorted_wrt (\<lambda>a b. sev b \<le> sev a) ranked" by (simp add: sort_desc_sorted)
  from s have "mset (map fst ranked) = mset (map fst r)" by (simp add: sort_desc_mset)
  with rank_all_keys [OF r] have m: "mset (map fst ranked) = mset (map fst local)" by simp
  from mset_eq_imp_distinct_iff [OF m] walk_node_keys(1) [OF w]
  show "distinct (map fst ranked)" by simp
  from m have "set (map fst ranked) = set (map fst local)" by (rule mset_eq_setD)
  with walk_node_keys(2) [OF w] p
  show "set (map fst ranked) = {key. \<exists>nd \<in> set (nodes plan). key_of nd = Inr key}"
    if "ranker_plan doc = Inr plan" using that by simp
qed

lemma summarize_topk_Inr:
  "ranked_groups so doc = Inr ranked \<Longrightarrow>
   summarize_topk so env doc pareto top_n = Inr (select env pareto top_n ranked)"
  by (simp add: summarize_topk_def bnd_def)

lemma select_pareto:
  "p \<noteq> 0 \<Longrightarrow> select env (Some p) top_n ranked = pareto_loop (total_of ranked) (clamp01 p) ranked [] 0"
  by (cases ranked) (simp_all add: select_def top_k_def py_prefix_def)



lemma bare_ranked: "ranked_groups str_unused bare_plan = Inr bare_items"
proof -
  have p: "ranker_plan bare_plan = Inr bare_plan"
    by (simp add: bare_plan_def ranker_plan_def plan_of_def eval_defs)
  have w: "walk_node str_unused bare_plan [] =
     Inr [((KStr (py ''Nested Loop''), KStr (py ''?'')),
           \<lparr>shared_read = 0, rows_removed = 0, temp = 0, cost = 0, filters = [], count_n = 1\<rparr>),
          ((KStr (py ''Seq Scan''), KStr (py ''orders'')),
           \<lparr>shared_read = 0, rows_removed = 0, temp = 0, cost = 0, filters = [], count_n = 1\<rparr>)]"
    by (simp add: bare_plan_def eval_defs rank_defs)
  have r: "severity \<lparr>shared_read = 0, rows_removed = 0, temp = 0, cost = 0, filters = [], count_n = 1\<rparr> = Inr 0"
    by (simp add: severity_def log1p_def bnd_def)
  show ?thesis
    by (simp add: ranked_groups_def p w r bnd_def sort_desc_def sev_def bare_items_def)
qed

lemma default_top_unset: "default_top None = 5"
  by (simp add: default_top_def parse_defs)

section \<open>Claims about the selection\<close>




text \<open>
  Claim C6, amended. When a pareto fraction other than 0 is given, so for each one in
  \<open>(0, 1]\<close>, the result is that of the pareto loop under the clamped fraction whatever
  the top-K count and its environment default are; when the fraction is 0, the result
  is the slice of \<^verbatim>\<open>ranked\<close> that the top-K count gives.
\<close>

theorem pareto_takes_precedence:
  assumes "p \<noteq> 0"
  shows "summarize_topk so env doc (Some p) top_n
      = bnd (ranked_groups so doc) (\<lambda>ranked. Inr (pareto_loop (total_of ranked) (clamp01 p) ranked [] 0))
    \<and> (\<forall>env' top_n'. summarize_topk so env doc (Some p) top_n = summarize_topk so env' doc (Some p) top_n')
    \<and> summarize_topk so env doc (Some 0) top_n
      = bnd (ranked_groups so doc) (\<lambda>ranked. Inr (py_prefix (case top_n of None \<Rightarrow> default_top env | Some k \<Rightarrow> k) ranked))"
proof -
  have "select env (Some 0) top_n ranked
      = py_prefix (case top_n of None \<Rightarrow> default_top env | Some k \<Rightarrow> k) ranked" for ranked
    by (simp add: select_def top_k_def)
  with assms show ?thesis by (simp add: summarize_topk_def select_pareto)
qed

theorem pareto_takes_precedence_witness:
  "(9 / 10 :: real) \<noteq> 0
   \<and> summarize_topk str_unused None two_scans (Some (9 / 10)) (Some 0) =
       Inr [((KStr (py ''Seq Scan''), KStr (py ''orders'')),
             \<lparr>shared_read = 80, rows_removed = 0, temp = 0, cost = 3000, filters = [], count_n = 2\<rparr>,
             3 * ln 81 + ln 4)]"
proof -
  have a: "(9 / 10 :: real) \<noteq> 0" by simp
  from pareto_takes_precedence [OF a, of str_unused None two_scans "Some 0"]
  have "summarize_topk str_unused None two_scans (Some (9 / 10)) (Some 0)
      = summarize_topk str_unused None two_scans (Some (9 / 10)) None" by blast
  with two_scans_topk a show ?thesis by simp
qed

text \<open>
  Claim C6 as it is written fails for the fraction 0, which lies in \<open>[0, 1]\<close>: on the plan
  without counters the count 0 gives no group and the count 2 gives both.
\<close>

theorem top_k_decides_at_zero:
  "summarize_topk str_unused None bare_plan (Some 0) (Some 0) = Inr []
   \<and> summarize_topk str_unused None bare_plan (Some 0) (Some 2) = Inr bare_items"
  by (simp add: bare_ranked summarize_topk_def bnd_def select_def top_k_def py_prefix_def bare_items_def)

text \<open>
  Claim C7, amended. A pareto fraction below 0 or above 1 is not rejected: the result is
  that of the pareto loop under the threshold 0 or 1, for whatever the walk and the
  ranking return. Above 1 this is the result for the fraction 1. Below 0 it is the first
  group of \<^verbatim>\<open>ranked\<close> alone whenever that group's share is not negative, which is not
  what the fraction 0 gives.
\<close>

theorem pareto_out_of_range:
  assumes "p < 0 \<or> 1 < p"
  shows "summarize_topk so env doc (Some p) top_n
      = bnd (ranked_groups so doc)
          (\<lambda>ranked. Inr (pareto_loop (total_of ranked) (if p < 0 then 0 else 1) ranked [] 0))
    \<and> (1 < p \<longrightarrow> summarize_topk so env doc (Some p) top_n = summarize_topk so env doc (Some 1) top_n)
    \<and> (p < 0 \<longrightarrow> (\<forall>x rest. ranked_groups so doc = Inr (x # rest) \<longrightarrow> 0 \<le> sev x / total_of (x # rest)
          \<longrightarrow> summarize_topk so env doc (Some p) top_n = Inr [x]))"
proof -
  from assms have nz: "p \<noteq> 0" by auto
  from assms have c: "clamp01 p = (if p < 0 then 0 else 1)" by (auto simp: clamp01_def)
  have 1: "summarize_topk so env doc (Some p) top_n
      = bnd (ranked_groups so doc)
          (\<lambda>ranked. Inr (pareto_loop (total_of ranked) (if p < 0 then 0 else 1) ranked [] 0))"
    using nz c by (simp add: summarize_topk_def select_pareto)
  have 2: "summarize_topk so env doc (Some p) top_n = summarize_topk so env doc (Some 1) top_n" if "1 < p"
    using that 1 by (simp add: summarize_topk_def select_pareto clamp01_def)
  have 3: "summarize_topk so env doc (Some p) top_n = Inr [x]"
    if "p < 0" "ranked_groups so doc = Inr (x # rest)" "0 \<le> sev x / total_of (x # rest)" for x rest
    using that 1 by (simp add: bnd_def)
  from 1 2 3 show ?thesis by blast
qed

theorem pareto_out_of_range_witness:
  "((2 :: real) < 0 \<or> (1 :: real) < 2)
   \<and> summarize_topk str_unused None two_scans (Some 2) None
       = summarize_topk str_unused None two_scans (Some 1) None
   \<and> ((- 1 / 2 :: real) < 0 \<or> (1 :: real) < - 1 / 2)
   \<and> summarize_topk str_unused None bare_plan (Some (- 1 / 2)) None = Inr (take 1 bare_items)"
proof -
  have a: "(2 :: real) < 0 \<or> (1 :: real) < 2" by simp
  have b: "(- 1 / 2 :: real) < 0 \<or> (1 :: real) < - 1 / 2" by simp
  from pareto_out_of_range [OF a, of str_unused None two_scans None]
  have "(1 :: real) < 2 \<longrightarrow> summarize_topk str_unused None two_scans (Some 2) None
       = summarize_topk str_unused None two_scans (Some 1) None" by blast
  then have 1: "summarize_topk str_unused None two_scans (Some 2) None
       = summarize_topk str_unused None two_scans (Some 1) None" by simp
  have h: "0 \<le> sev (hd bare_items) / total_of (hd bare_items # tl bare_items)"
    by (simp add: bare_items_def sev_def total_of_def)
  have r: "ranked_groups str_unused bare_plan = Inr (hd bare_items # tl bare_items)"
    by (simp add: bare_ranked bare_items_def)
  from pareto_out_of_range [OF b, of str_unused None bare_plan None]
  have "(- 1 / 2 :: real) < 0 \<longrightarrow> (\<forall>x rest. ranked_groups str_unused bare_plan = Inr (x # rest)
          \<longrightarrow> 0 \<le> sev x / total_of (x # rest)
          \<longrightarrow> summarize_topk str_unused None bare_plan (Some (- 1 / 2)) None = Inr [x])" by blast
  then have "\<forall>x rest. ranked_groups str_unused bare_plan = Inr (x # rest)
          \<longrightarrow> 0 \<le> sev x / total_of (x # rest)
          \<longrightarrow> summarize_topk str_unused None bare_plan (Some (- 1 / 2)) None = Inr [x]" by simp
  with r h have "summarize_topk str_unused None bare_plan (Some (- 1 / 2)) None = Inr [hd bare_items]"
    by blast
  then have 2: "summarize_topk str_unused None bare_plan (Some (- 1 / 2)) None = Inr (take 1 bare_items)"
    by (simp add: bare_items_def)
  from a b 1 2 show ?thesis by blast
qed

text \<open>
  Claim C7 as it is written fails for a negative fraction: on the plan without counters
  \<open>-0.5\<close> gives the first group, while its nearest endpoint 0 gives the first five
  groups, here both.
\<close>

theorem negative_fraction_not_as_zero:
  "summarize_topk str_unused None bare_plan (Some (- 1 / 2)) None = Inr (take 1 bare_items)
   \<and> summarize_topk str_unused None bare_plan (Some (clamp01 (- 1 / 2))) None = Inr bare_items
   \<and> take 1 bare_items \<noteq> bare_items"
  by (simp add: bare_ranked summarize_topk_def bnd_def select_def top_k_def py_prefix_def
      default_top_unset total_of_def clamp01_def sev_def bare_items_def)

text \<open>
  Claim C8. When the Ranker has ranked the groups and no pareto fraction is applied (it
  is \<^verbatim>\<open>None\<close> or 0), the count 0 gives the empty list and every count that is at least
  the number of groups gives all of \<^verbatim>\<open>ranked\<close>, which is in descending order of
  severity, has no key twice and has the keys of all nodes of the plan, one item for each
  distinct key.
\<close>

theorem top_k_bounds:
  assumes "ranked_groups so doc = Inr ranked" and "pareto = None \<or> pareto = Some 0"
  shows "summarize_topk so env doc pareto (Some 0) = Inr []
    \<and> (\<forall>k. int (length ranked) \<le> k \<longrightarrow> summarize_topk so env doc pareto (Some k) = Inr ranked)
    \<and> sorted_wrt (\<lambda>a b. sev b \<le> sev a) ranked
    \<and> distinct (map fst ranked)
    \<and> (\<forall>plan. ranker_plan doc = Inr plan \<longrightarrow>
          set (map fst ranked) = {key. \<exists>nd \<in> set (nodes plan). key_of nd = Inr key}
          \<and> length ranked = card {key. \<exists>nd \<in> set (nodes plan). key_of nd = Inr key})"
proof -
  from assms(2) have s: "select env pareto (Some k) ranked = py_prefix k ranked" for k
    by (auto simp: select_def top_k_def)
  have "summarize_topk so env doc pareto (Some 0) = Inr []"
    by (simp add: summarize_topk_Inr [OF assms(1)] s py_prefix_def)
  moreover have "summarize_topk so env doc pareto (Some k) = Inr ranked" if "int (length ranked) \<le> k" for k
    using that by (simp add: summarize_topk_Inr [OF assms(1)] s py_prefix_def)
  moreover have "length ranked = card {key. \<exists>nd \<in> set (nodes plan). key_of nd = Inr key}"
    if "ranker_plan doc = Inr plan" for plan
    using ranked_groups_props(3) [OF assms(1) that] distinct_card [OF ranked_groups_props(2) [OF assms(1)]]
    by simp
  ultimately show ?thesis using ranked_groups_props [OF assms(1)] by blast
qed

theorem top_k_bounds_witness:
  "ranked_groups str_unused bare_plan = Inr bare_items
   \<and> (Some 0 = (None :: real option) \<or> Some (0 :: real) = Some 0)
   \<and> summarize_topk str_unused None bare_plan (Some 0) (Some 0) = Inr []
   \<and> int (length bare_items) \<le> 5
   \<and> summarize_topk str_unused None bare_plan (Some 0) (Some 5) = Inr bare_items
   \<and> distinct (map fst bare_items)"
proof -
  have a: "Some 0 = (None :: real option) \<or> Some (0 :: real) = Some 0" by simp
  have l: "int (length bare_items) \<le> 5" by (simp add: bare_items_def)
  from top_k_bounds [OF bare_ranked a, of None] l a bare_ranked show ?thesis by blast
qed

end
